theory Spec2Isabelle
  imports Main
begin

section \<open>The TIS-100 node (tis100/node.py)\<close>

text \<open>
  A node is a Python object; its \<^verbatim>\<open>run\<close> method is a generator. The embedding keeps
  the object's fields in a record, keeps all objects in a store indexed by address (a
  neighbour reference is an address), and represents a suspended generator by the
  \<^verbatim>\<open>yield\<close> it is suspended at together with the local variables that are still
  needed after it. Every Python exception is a value of type \<open>error\<close>. Output through
  \<^verbatim>\<open>print\<close> (the \<^verbatim>\<open>_log\<close> method) is not modelled; \<^verbatim>\<open>node_id\<close> is used for
  logging only and is left out.
\<close>

datatype mode = IDLE | RUN | READ | WRITE

datatype direction = UP | DOWN | RIGHT | LEFT

datatype error = AssertionError | NameError | ValueError | TypeError | IndexError | KeyError

type_synonym instr = "string \<times> string option \<times> string option"

type_synonym addr = nat

record node =
  is_log_node :: bool
  ops :: "instr list option"
  labels :: "(string \<rightharpoonup> nat) option"
  acc :: int
  bak :: int
  iptr :: int
  next_iptr :: int
  mode_stack :: "mode list"
  last_port_dir :: "direction option"
  inputs :: "direction \<Rightarrow> int list"
  attached_nodes :: "direction \<rightharpoonup> addr"
  seen_inputs :: "int list"

type_synonym heap = "addr \<Rightarrow> node"

text \<open>
  \<^verbatim>\<open>Node.__init__\<close> with the default \<^verbatim>\<open>compiled=(None, None)\<close>. The field
  \<open>mode_stack\<close> is \<^verbatim>\<open>_mode\<close>, \<open>last_port_dir\<close> is \<^verbatim>\<open>_last_port_dir\<close>. The
  dictionary \<^verbatim>\<open>inputs\<close> is only ever accessed through \<^verbatim>\<open>get(direction, [])\<close> and
  \<^verbatim>\<open>setdefault(direction, [])\<close>, so a missing key and an empty queue are the same
  and the dictionary is a total function. \<open>is_log_node\<close> tells a \<^verbatim>\<open>LogNode\<close>
  (tis100/logger.py) from a plain \<^verbatim>\<open>Node\<close>; \<open>seen_inputs\<close> is the LogNode's field.
\<close>

definition Node_init :: node where
  "Node_init = \<lparr> is_log_node = False, ops = None, labels = None, acc = 0, bak = 0,
     iptr = 0, next_iptr = 0, mode_stack = [IDLE], last_port_dir = None,
     inputs = (\<lambda>_. []), attached_nodes = Map.empty, seen_inputs = [] \<rparr>"

definition LogNode_init :: node where
  "LogNode_init = Node_init \<lparr> is_log_node := True \<rparr>"

definition DIRECTIONS :: "direction list" where
  "DIRECTIONS = [UP, DOWN, LEFT, RIGHT]"

definition label_to_direction :: "string \<Rightarrow> direction option" where
  "label_to_direction s =
     (if s = ''UP'' then Some UP else if s = ''DOWN'' then Some DOWN
      else if s = ''LEFT'' then Some LEFT else if s = ''RIGHT'' then Some RIGHT else None)"

fun opposite_directions :: "direction \<Rightarrow> direction" where
  "opposite_directions UP = DOWN"
| "opposite_directions DOWN = UP"
| "opposite_directions LEFT = RIGHT"
| "opposite_directions RIGHT = LEFT"

text \<open>
  The dictionary \<^verbatim>\<open>op_table\<close> maps an opcode name to the bound method that handles it;
  \<open>handler\<close> names these methods (\<open>H_nop\<close> is \<^verbatim>\<open>self._nop\<close>, and so on).
\<close>

datatype handler =
    H_nop | H_mov | H_swp | H_sav | H_add | H_sub | H_neg
  | H_jmp | H_jez | H_jnz | H_jgz | H_jlz | H_jro

definition op_table :: "string \<rightharpoonup> handler" where
  "op_table =
     [''NOP'' \<mapsto> H_nop, ''MOV'' \<mapsto> H_mov, ''SWP'' \<mapsto> H_swp, ''SAV'' \<mapsto> H_sav,
      ''ADD'' \<mapsto> H_add, ''SUB'' \<mapsto> H_sub, ''NEG'' \<mapsto> H_neg, ''JMP'' \<mapsto> H_jmp,
      ''JEZ'' \<mapsto> H_jez, ''JNZ'' \<mapsto> H_jnz, ''JGZ'' \<mapsto> H_jgz, ''JLZ'' \<mapsto> H_jlz,
      ''JRO'' \<mapsto> H_jro]"

definition loaded :: "node \<Rightarrow> bool" where
  "loaded n = (case ops n of None \<Rightarrow> False | Some os \<Rightarrow> os \<noteq> [])"

definition load_bytecode :: "instr list \<times> (string \<rightharpoonup> nat) \<Rightarrow> node \<Rightarrow> node" where
  "load_bytecode compiled n = n \<lparr> ops := Some (fst compiled), labels := Some (snd compiled) \<rparr>"

text \<open>The property \<^verbatim>\<open>mode\<close> is \<^verbatim>\<open>self._mode[-1]\<close>, an IndexError on an empty list.\<close>

definition mode_of :: "node \<Rightarrow> error + mode" where
  "mode_of n = (if mode_stack n = [] then Inl IndexError else Inr (last (mode_stack n)))"

definition push_mode :: "mode \<Rightarrow> node \<Rightarrow> node" where
  "push_mode m n = n \<lparr> mode_stack := mode_stack n @ [m] \<rparr>"

definition pop_mode :: "node \<Rightarrow> error + node" where
  "pop_mode n =
     (if mode_stack n = [] then Inl IndexError
      else Inr (n \<lparr> mode_stack := butlast (mode_stack n) \<rparr>))"

text \<open>Python indexing \<^verbatim>\<open>xs[i]\<close>: a negative index counts from the end.\<close>

definition py_index :: "'a list \<Rightarrow> int \<Rightarrow> error + 'a" where
  "py_index xs i =
     (if 0 \<le> i \<and> i < int (length xs) then Inr (xs ! nat i)
      else if i < 0 \<and> - int (length xs) \<le> i then Inr (xs ! nat (int (length xs) + i))
      else Inl IndexError)"

text \<open>
  \<^verbatim>\<open>get_next_op\<close>. \<^verbatim>\<open>len(self.ops)\<close> is a TypeError when no program was ever loaded
  (\<^verbatim>\<open>ops\<close> is \<^verbatim>\<open>None\<close>).
\<close>

definition get_next_op :: "node \<Rightarrow> error + (instr \<times> node)" where
  "get_next_op n =
     (case ops n of
        None \<Rightarrow> Inl TypeError
      | Some os \<Rightarrow>
          (let n1 = (if next_iptr n \<ge> int (length os) then n \<lparr> next_iptr := 0 \<rparr> else n)
           in case py_index os (next_iptr n1) of
                Inl e \<Rightarrow> Inl e
              | Inr ins \<Rightarrow> Inr (ins, n1 \<lparr> iptr := next_iptr n1 \<rparr>)))"

text \<open>
  \<^verbatim>\<open>attach_node\<close> on the store: \<open>a\<close> is the node the method is called on, \<open>b\<close> the
  node being attached.
\<close>

definition attach_node :: "addr \<Rightarrow> addr \<Rightarrow> direction \<Rightarrow> bool \<Rightarrow> heap \<Rightarrow> heap" where
  "attach_node a b d bidi h =
     (let h1 = h(a := (h a) \<lparr> attached_nodes := (attached_nodes (h a))(d \<mapsto> b) \<rparr>)
      in if bidi
         then h1(b := (h1 b) \<lparr> attached_nodes :=
                (attached_nodes (h1 b))(opposite_directions d \<mapsto> a) \<rparr>)
         else h1)"

text \<open>
  \<^verbatim>\<open>get_attached_node\<close> asserts that the direction is one of \<^verbatim>\<open>DIRECTIONS\<close>; the only
  other value a direction variable can hold is \<^verbatim>\<open>None\<close> (an unset \<^verbatim>\<open>_last_port_dir\<close>).
\<close>

definition get_attached_node :: "direction option \<Rightarrow> node \<Rightarrow> error + addr option" where
  "get_attached_node dopt n =
     (case dopt of None \<Rightarrow> Inl AssertionError | Some d \<Rightarrow> Inr (attached_nodes n d))"

text \<open>
  \<^verbatim>\<open>write_input\<close> is overridden by \<^verbatim>\<open>LogNode\<close>, which records the value and leaves
  its queues alone (the logger's global counter is not part of the node).
\<close>

definition write_input :: "direction \<Rightarrow> int \<Rightarrow> node \<Rightarrow> node" where
  "write_input d v n =
     (if is_log_node n then n \<lparr> seen_inputs := seen_inputs n @ [v] \<rparr>
      else n \<lparr> inputs := (inputs n)(d := inputs n d @ [v]) \<rparr>)"

definition read_input :: "direction \<Rightarrow> node \<Rightarrow> error + (int \<times> node)" where
  "read_input d n =
     (case inputs n d of
        [] \<Rightarrow> Inl IndexError
      | v # vs \<Rightarrow> Inr (v, n \<lparr> inputs := (inputs n)(d := vs) \<rparr>))"

definition has_inputs :: "direction \<Rightarrow> node \<Rightarrow> bool" where
  "has_inputs d n = (length (inputs n d) > 0)"

subsection \<open>Integer literals\<close>

text \<open>
  \<^verbatim>\<open>int(src)\<close> on an operand token: an optional sign and at least one decimal digit, a
  ValueError otherwise. (Python also strips surrounding white space; operand tokens
  come from the compiler's pattern \<^verbatim>\<open>[0-9A-Z_]+\<close> and hold none.)
\<close>

definition digit_of :: "char \<Rightarrow> nat option" where
  "digit_of c =
     (let k = (of_char c :: nat) in if 48 \<le> k \<and> k \<le> 57 then Some (k - 48) else None)"

fun digits_val :: "nat \<Rightarrow> string \<Rightarrow> nat option" where
  "digits_val k [] = Some k"
| "digits_val k (c # cs) =
     (case digit_of c of None \<Rightarrow> None | Some d \<Rightarrow> digits_val (10 * k + d) cs)"

definition py_int :: "string \<Rightarrow> int option" where
  "py_int s =
     (case s of
        [] \<Rightarrow> None
      | c # cs \<Rightarrow>
          if c = CHR ''-'' then
            (if cs = [] then None else map_option (\<lambda>k. - int k) (digits_val 0 cs))
          else if c = CHR ''+'' then
            (if cs = [] then None else map_option int (digits_val 0 cs))
          else map_option int (digits_val 0 s))"

subsection \<open>Suspension points\<close>

text \<open>
  Where the generator stack below \<^verbatim>\<open>run\<close> can be suspended. In \<^verbatim>\<open>_read_src\<close>:
  \<^item> \<open>ReadWait d\<close>: the \<^verbatim>\<open>yield\<close> in the loop \<^verbatim>\<open>while not self.has_inputs(direction)\<close>
    of a blocking \<^verbatim>\<open>_read_input\<close>;
  \<^item> \<open>ReadValue v\<close>: a \<^verbatim>\<open>yield\<close> that hands the value \<open>v\<close> up (\<^verbatim>\<open>yield self.acc\<close>,
    \<^verbatim>\<open>yield int(src)\<close>, \<^verbatim>\<open>yield result\<close> of a blocking read); the callers'
    \<^verbatim>\<open>for value in self._read_src(src): yield\<close> suspends the node there as well;
  \<^item> \<open>AnyReadValue v\<close>: the \<^verbatim>\<open>yield src\<close> of the \<^verbatim>\<open>ANY\<close> branch, the READ frame of
    \<^verbatim>\<open>ANY\<close> still pushed;
  \<^item> \<open>AnyReadPoll\<close>: the bare \<^verbatim>\<open>yield\<close> after a pass over all directions found nothing.

  In \<^verbatim>\<open>_write_dest\<close>:
  \<^item> \<open>WriteWait p od\<close>: the \<^verbatim>\<open>yield\<close> in the loop \<^verbatim>\<open>while node.has_inputs(opposite_dir)\<close>
    of a blocking \<^verbatim>\<open>_write_output\<close>, with its local variables \<^verbatim>\<open>node\<close> and
    \<^verbatim>\<open>opposite_dir\<close>;
  \<^item> \<open>WriteDone\<close>: the final \<^verbatim>\<open>yield True\<close> of a blocking \<^verbatim>\<open>_write_output\<close>;
  \<^item> \<open>AnyWritePoll v\<close>: the bare \<^verbatim>\<open>yield\<close> after a pass of the \<^verbatim>\<open>ANY\<close> branch over all
    directions, with the value being written.
\<close>

datatype rpos = ReadWait direction | ReadValue int | AnyReadValue int | AnyReadPoll

datatype wpos = WriteWait addr direction | WriteDone | AnyWritePoll int

text \<open>
  The frame of the instruction handler: \<open>InTail\<close> is the single \<^verbatim>\<open>yield\<close> of
  \<^verbatim>\<open>_nop\<close>, \<^verbatim>\<open>_swp\<close>, \<^verbatim>\<open>_sav\<close>, \<^verbatim>\<open>_neg\<close> and \<^verbatim>\<open>_jmp\<close>; \<open>InMovRead dest p\<close> is
  \<^verbatim>\<open>_mov\<close> in its first loop; \<open>InMovWrite p\<close> is \<^verbatim>\<open>_mov\<close> in its second loop;
  \<open>InAdd\<close>, \<open>InSub\<close> and \<open>InJro\<close> are the loops of \<^verbatim>\<open>_add\<close>, \<^verbatim>\<open>_sub\<close> and \<^verbatim>\<open>_jro\<close>.
\<close>

datatype frame =
    InTail
  | InMovRead "string option" rpos
  | InMovWrite wpos
  | InAdd rpos
  | InSub rpos
  | InJro rpos

text \<open>What resuming a handler gives: it is suspended again, or it has returned.\<close>

datatype outcome = Yield frame heap | Finish heap

datatype gen = NotStarted | Suspended frame

subsection \<open>Reading a source operand\<close>

text \<open>
  The blocking \<^verbatim>\<open>_read_input\<close> from its loop test on, up to its next \<^verbatim>\<open>yield\<close>: it
  yields nothing while the queue is empty, and the value once there is one.
\<close>

definition read_input_loop :: "direction \<Rightarrow> node \<Rightarrow> error + (rpos \<times> node)" where
  "read_input_loop d n =
     (if \<not> has_inputs d n then Inr (ReadWait d, n)
      else case read_input d n of
             Inl e \<Rightarrow> Inl e
           | Inr (result, n1) \<Rightarrow>
               (case pop_mode (n1 \<lparr> last_port_dir := Some d \<rparr>) of
                  Inl e \<Rightarrow> Inl e
                | Inr n2 \<Rightarrow> Inr (ReadValue result, n2)))"

text \<open>
  The blocking \<^verbatim>\<open>_read_input\<close> from its start: READ is pushed, then
  \<^verbatim>\<open>get_attached_node\<close> asserts the direction.
\<close>

definition read_input_start :: "direction option \<Rightarrow> node \<Rightarrow> error + (rpos \<times> node)" where
  "read_input_start dopt n =
     (let n1 = push_mode READ n
      in case get_attached_node dopt n1 of
           Inl e \<Rightarrow> Inl e
         | Inr _ \<Rightarrow> (case dopt of None \<Rightarrow> Inl AssertionError | Some d \<Rightarrow> read_input_loop d n1))"

text \<open>
  \<^verbatim>\<open>_read_input(direction, blocking=False)\<close>, which yields at most once: \<open>None\<close> when it
  returns without a value, \<open>Some result\<close> when it yields \<^verbatim>\<open>result\<close>. Its caller never
  resumes it after that.
\<close>

definition read_input_nb :: "direction \<Rightarrow> node \<Rightarrow> error + (int option \<times> node)" where
  "read_input_nb d n =
     (let n1 = push_mode READ n
      in case get_attached_node (Some d) n1 of
           Inl e \<Rightarrow> Inl e
         | Inr _ \<Rightarrow>
             if \<not> has_inputs d n1 then
               (case pop_mode n1 of Inl e \<Rightarrow> Inl e | Inr n2 \<Rightarrow> Inr (None, n2))
             else
               (case read_input d n1 of
                  Inl e \<Rightarrow> Inl e
                | Inr (result, n2) \<Rightarrow>
                    (case pop_mode (n2 \<lparr> last_port_dir := Some d \<rparr>) of
                       Inl e \<Rightarrow> Inl e
                     | Inr n3 \<Rightarrow> Inr (Some result, n3))))"

text \<open>
  One pass of the \<^verbatim>\<open>for direction in self.DIRECTIONS\<close> loop of the \<^verbatim>\<open>ANY\<close> branch of
  \<^verbatim>\<open>_read_src\<close>, over the directions still to try, up to the next \<^verbatim>\<open>yield\<close>.
\<close>

fun any_read_pass :: "direction list \<Rightarrow> node \<Rightarrow> error + (rpos \<times> node)" where
  "any_read_pass [] n = Inr (AnyReadPoll, n)"
| "any_read_pass (d # ds) n =
     (case read_input_nb d n of
        Inl e \<Rightarrow> Inl e
      | Inr (None, n1) \<Rightarrow> any_read_pass ds n1
      | Inr (Some v, n1) \<Rightarrow> Inr (AnyReadValue v, n1))"

text \<open>\<^verbatim>\<open>_read_src\<close> from its start to its first \<^verbatim>\<open>yield\<close>. \<^verbatim>\<open>NIL\<close> is not defined anywhere
  in the module, so \<^verbatim>\<open>yield NIL\<close> is a NameError. \<^verbatim>\<open>int(None)\<close> is a TypeError.\<close>

definition read_src_start :: "string option \<Rightarrow> node \<Rightarrow> error + (rpos \<times> node)" where
  "read_src_start src n =
     (if src = Some ''BAK'' then Inl AssertionError
      else if src = Some ''ACC'' then Inr (ReadValue (acc n), n)
      else if src = Some ''NIL'' then Inl NameError
      else if src \<in> {Some ''UP'', Some ''DOWN'', Some ''LEFT'', Some ''RIGHT''} then
        (case label_to_direction (the src) of
           None \<Rightarrow> Inl KeyError
         | Some d \<Rightarrow> read_input_start (Some d) n)
      else if src = Some ''ANY'' then any_read_pass DIRECTIONS (push_mode READ n)
      else if src = Some ''LAST'' then read_input_start (last_port_dir n) n
      else case src of
             None \<Rightarrow> Inl TypeError
           | Some s \<Rightarrow> (case py_int s of None \<Rightarrow> Inl ValueError | Some v \<Rightarrow> Inr (ReadValue v, n)))"

text \<open>
  Resuming \<^verbatim>\<open>_read_src\<close>: \<open>Inl\<close> when it yields again, \<open>Inr (v, n)\<close> when it is
  exhausted; \<open>v\<close> is then the last value it yielded, which is what the loop variable
  \<^verbatim>\<open>value\<close> of the caller holds after \<^verbatim>\<open>for value in self._read_src(src)\<close>.
\<close>

definition read_src_resume :: "rpos \<Rightarrow> node \<Rightarrow> error + ((rpos \<times> node) + (int \<times> node))" where
  "read_src_resume p n =
     (case p of
        ReadWait d \<Rightarrow> (case read_input_loop d n of Inl e \<Rightarrow> Inl e | Inr y \<Rightarrow> Inr (Inl y))
      | ReadValue v \<Rightarrow> Inr (Inr (v, n))
      | AnyReadValue v \<Rightarrow> (case pop_mode n of Inl e \<Rightarrow> Inl e | Inr n1 \<Rightarrow> Inr (Inr (v, n1)))
      | AnyReadPoll \<Rightarrow>
          (case any_read_pass DIRECTIONS n of Inl e \<Rightarrow> Inl e | Inr y \<Rightarrow> Inr (Inl y)))"

subsection \<open>Writing to a destination operand\<close>

text \<open>
  The two statements by which \<^verbatim>\<open>_write_output\<close> hands its value over, blocking or not:
  \<^verbatim>\<open>node.write_input(self._opposite_directions[direction], value)\<close> and
  \<^verbatim>\<open>self._last_port_dir = direction\<close>. \<open>p\<close> is the local \<^verbatim>\<open>node\<close>, \<open>a\<close> the writer.
  The peer's queue is not looked at before.
\<close>

definition hand_over :: "addr \<Rightarrow> direction \<Rightarrow> int \<Rightarrow> heap \<Rightarrow> addr \<Rightarrow> heap" where
  "hand_over p d v h a =
     (let h2 = h(p := write_input (opposite_directions d) v (h p))
      in h2(a := (h2 a) \<lparr> last_port_dir := Some d \<rparr>))"

text \<open>
  The blocking \<^verbatim>\<open>_write_output\<close> from its loop test on: \<open>p\<close> is the local \<^verbatim>\<open>node\<close>,
  \<open>od\<close> the local \<^verbatim>\<open>opposite_dir\<close>, \<open>a\<close> the writer.
\<close>

definition write_output_loop :: "addr \<Rightarrow> direction \<Rightarrow> heap \<Rightarrow> addr \<Rightarrow> error + (wpos option \<times> heap)" where
  "write_output_loop p od h a =
     (if has_inputs od (h p) then Inr (Some (WriteWait p od), h)
      else case pop_mode (h a) of
             Inl e \<Rightarrow> Inl e
           | Inr n \<Rightarrow> Inr (Some WriteDone, h(a := n)))"

text \<open>
  The blocking \<^verbatim>\<open>_write_output\<close> from its start. \<open>None\<close> as position means that the
  generator returned without a \<^verbatim>\<open>yield\<close>: with no node attached the blocking branch is
  \<^verbatim>\<open>pass\<close> followed by \<^verbatim>\<open>return\<close>, the pushed WRITE frame stays.
\<close>

definition write_output_start ::
  "direction option \<Rightarrow> int \<Rightarrow> heap \<Rightarrow> addr \<Rightarrow> error + (wpos option \<times> heap)" where
  "write_output_start dopt v h a =
     (let h1 = h(a := push_mode WRITE (h a))
      in case get_attached_node dopt (h1 a) of
           Inl e \<Rightarrow> Inl e
         | Inr None \<Rightarrow> Inr (None, h1)
         | Inr (Some p) \<Rightarrow>
             (case dopt of
                None \<Rightarrow> Inl AssertionError
              | Some d \<Rightarrow>
                  write_output_loop p (opposite_directions d) (hand_over p d v h1 a) a))"

text \<open>
  \<^verbatim>\<open>_write_output(direction, value, blocking=False)\<close>: \<open>True\<close> when it yields \<^verbatim>\<open>True\<close>,
  \<open>False\<close> when it returns without a \<^verbatim>\<open>yield\<close>. The value is handed to the peer before
  the peer's queue is tested.
\<close>

definition write_output_nb :: "direction \<Rightarrow> int \<Rightarrow> heap \<Rightarrow> addr \<Rightarrow> error + (bool \<times> heap)" where
  "write_output_nb d v h a =
     (let h1 = h(a := push_mode WRITE (h a))
      in case get_attached_node (Some d) (h1 a) of
           Inl e \<Rightarrow> Inl e
         | Inr None \<Rightarrow>
             (case pop_mode (h1 a) of Inl e \<Rightarrow> Inl e | Inr n \<Rightarrow> Inr (False, h1(a := n)))
         | Inr (Some p) \<Rightarrow>
             (let h3 = hand_over p d v h1 a
              in case pop_mode (h3 a) of
                   Inl e \<Rightarrow> Inl e
                 | Inr n \<Rightarrow> Inr (\<not> has_inputs (opposite_directions d) (h3 p), h3(a := n))))"

text \<open>
  One pass of the \<^verbatim>\<open>for direction in self.DIRECTIONS\<close> loop of the \<^verbatim>\<open>ANY\<close> branch of
  \<^verbatim>\<open>_write_dest\<close>, over the directions still to try: \<open>None\<close> when \<^verbatim>\<open>_write_dest\<close>
  returned (a direction yielded \<^verbatim>\<open>True\<close>), the poll position otherwise.
\<close>

fun any_write_pass :: "direction list \<Rightarrow> int \<Rightarrow> heap \<Rightarrow> addr \<Rightarrow> error + (wpos option \<times> heap)" where
  "any_write_pass [] v h a = Inr (Some (AnyWritePoll v), h)"
| "any_write_pass (d # ds) v h a =
     (case write_output_nb d v h a of
        Inl e \<Rightarrow> Inl e
      | Inr (True, h1) \<Rightarrow>
          (case pop_mode (h1 a) of Inl e \<Rightarrow> Inl e | Inr n \<Rightarrow> Inr (None, h1(a := n)))
      | Inr (False, h1) \<Rightarrow> any_write_pass ds v h1 a)"

text \<open>\<^verbatim>\<open>_write_dest\<close> from its start: the position of its first \<^verbatim>\<open>yield\<close>, or \<open>None\<close>
  when it returns without one.\<close>

definition write_dest_start ::
  "string option \<Rightarrow> int \<Rightarrow> heap \<Rightarrow> addr \<Rightarrow> error + (wpos option \<times> heap)" where
  "write_dest_start dest v h a =
     (if dest \<notin> {Some ''ACC'', Some ''NIL'', Some ''UP'', Some ''DOWN'', Some ''LEFT'',
                  Some ''RIGHT'', Some ''ANY'', Some ''LAST''} then Inl AssertionError
      else if dest = Some ''ACC'' then Inr (None, h(a := (h a) \<lparr> acc := v \<rparr>))
      else if dest = Some ''NIL'' then Inr (None, h)
      else if dest \<in> {Some ''UP'', Some ''DOWN'', Some ''LEFT'', Some ''RIGHT''} then
        (case label_to_direction (the dest) of
           None \<Rightarrow> Inl KeyError
         | Some d \<Rightarrow> write_output_start (Some d) v h a)
      else if dest = Some ''ANY'' then
        any_write_pass DIRECTIONS v (h(a := push_mode WRITE (h a))) a
      else write_output_start (last_port_dir (h a)) v h a)"

definition write_dest_resume :: "wpos \<Rightarrow> heap \<Rightarrow> addr \<Rightarrow> error + (wpos option \<times> heap)" where
  "write_dest_resume p h a =
     (case p of
        WriteWait q od \<Rightarrow> write_output_loop q od h a
      | WriteDone \<Rightarrow> Inr (None, h)
      | AnyWritePoll v \<Rightarrow> any_write_pass DIRECTIONS v h a)"

subsection \<open>Instruction handlers\<close>

text \<open>\<^verbatim>\<open>_jmp\<close> up to its \<^verbatim>\<open>yield\<close>. \<^verbatim>\<open>label in self.labels\<close> is a TypeError when
  \<^verbatim>\<open>labels\<close> is \<^verbatim>\<open>None\<close>.\<close>

definition jmp :: "string option \<Rightarrow> node \<Rightarrow> error + node" where
  "jmp label n =
     (case labels n of
        None \<Rightarrow> Inl TypeError
      | Some ls \<Rightarrow>
          (case label of
             None \<Rightarrow> Inl AssertionError
           | Some l \<Rightarrow>
               (case ls l of
                  None \<Rightarrow> Inl AssertionError
                | Some i \<Rightarrow> Inr (n \<lparr> next_iptr := int i \<rparr>))))"

text \<open>
  \<^verbatim>\<open>_jez\<close>, \<^verbatim>\<open>_jnz\<close>, \<^verbatim>\<open>_jgz\<close>, \<^verbatim>\<open>_jlz\<close> with their test already evaluated: they relay
  the \<^verbatim>\<open>yield\<close> of \<^verbatim>\<open>_jmp\<close> when the test holds and return at once, without any
  \<^verbatim>\<open>yield\<close>, when it does not.
\<close>

definition cond_jmp :: "bool \<Rightarrow> string option \<Rightarrow> heap \<Rightarrow> addr \<Rightarrow> error + outcome" where
  "cond_jmp c label h a =
     (if c then (case jmp label (h a) of
                   Inl e \<Rightarrow> Inl e
                 | Inr n \<Rightarrow> Inr (Yield InTail (h(a := n))))
      else Inr (Finish h))"

definition reading :: "(rpos \<Rightarrow> frame) \<Rightarrow> string option \<Rightarrow> heap \<Rightarrow> addr \<Rightarrow> error + outcome" where
  "reading fr src h a =
     (case read_src_start src (h a) of
        Inl e \<Rightarrow> Inl e
      | Inr (p, n) \<Rightarrow> Inr (Yield (fr p) (h(a := n))))"

text \<open>
  \<^verbatim>\<open>self.op_table[op](arg1, arg2)\<close>, with the method already looked up, from the start
  of the handler to its first \<^verbatim>\<open>yield\<close> or to its return.
\<close>

fun handler_start ::
  "handler \<Rightarrow> string option \<Rightarrow> string option \<Rightarrow> heap \<Rightarrow> addr \<Rightarrow> error + outcome" where
  "handler_start H_nop arg1 arg2 h a = Inr (Yield InTail h)"
| "handler_start H_mov arg1 arg2 h a = reading (InMovRead arg2) arg1 h a"
| "handler_start H_swp arg1 arg2 h a =
     Inr (Yield InTail (h(a := (h a) \<lparr> bak := acc (h a), acc := bak (h a) \<rparr>)))"
| "handler_start H_sav arg1 arg2 h a =
     Inr (Yield InTail (h(a := (h a) \<lparr> bak := acc (h a) \<rparr>)))"
| "handler_start H_add arg1 arg2 h a = reading InAdd arg1 h a"
| "handler_start H_sub arg1 arg2 h a = reading InSub arg1 h a"
| "handler_start H_neg arg1 arg2 h a =
     Inr (Yield InTail (h(a := (h a) \<lparr> acc := - acc (h a) \<rparr>)))"
| "handler_start H_jmp arg1 arg2 h a = cond_jmp True arg1 h a"
| "handler_start H_jez arg1 arg2 h a = cond_jmp (acc (h a) = 0) arg1 h a"
| "handler_start H_jnz arg1 arg2 h a = cond_jmp (acc (h a) \<noteq> 0) arg1 h a"
| "handler_start H_jgz arg1 arg2 h a = cond_jmp (acc (h a) > 0) arg1 h a"
| "handler_start H_jlz arg1 arg2 h a = cond_jmp (acc (h a) < 0) arg1 h a"
| "handler_start H_jro arg1 arg2 h a = reading InJro arg1 h a"

text \<open>The second loop of \<^verbatim>\<open>_mov\<close>: it relays every \<^verbatim>\<open>yield\<close> of \<^verbatim>\<open>_write_dest\<close>.\<close>

definition mov_write :: "error + (wpos option \<times> heap) \<Rightarrow> error + outcome" where
  "mov_write r =
     (case r of
        Inl e \<Rightarrow> Inl e
      | Inr (None, h) \<Rightarrow> Inr (Finish h)
      | Inr (Some p, h) \<Rightarrow> Inr (Yield (InMovWrite p) h))"

text \<open>
  What \<^verbatim>\<open>_jro\<close> does after its loop. \<^verbatim>\<open>run\<close> has set \<^verbatim>\<open>next_iptr\<close> to \<^verbatim>\<open>iptr + 1\<close>
  before it called the handler.
\<close>

definition jro_tail :: "int \<Rightarrow> node \<Rightarrow> error + node" where
  "jro_tail v n =
     (case ops n of
        None \<Rightarrow> Inl TypeError
      | Some os \<Rightarrow>
          (let new_iptr = next_iptr n + v
           in Inr (n \<lparr> next_iptr := max 0 (min new_iptr (int (length os))) \<rparr>)))"

text \<open>Resuming a suspended handler, up to its next \<^verbatim>\<open>yield\<close> or to its return.\<close>

definition handler_resume :: "frame \<Rightarrow> heap \<Rightarrow> addr \<Rightarrow> error + outcome" where
  "handler_resume fr h a =
     (case fr of
        InTail \<Rightarrow> Inr (Finish h)
      | InMovRead dest p \<Rightarrow>
          (case read_src_resume p (h a) of
             Inl e \<Rightarrow> Inl e
           | Inr (Inl (p', n)) \<Rightarrow> Inr (Yield (InMovRead dest p') (h(a := n)))
           | Inr (Inr (v, n)) \<Rightarrow> mov_write (write_dest_start dest v (h(a := n)) a))
      | InMovWrite p \<Rightarrow> mov_write (write_dest_resume p h a)
      | InAdd p \<Rightarrow>
          (case read_src_resume p (h a) of
             Inl e \<Rightarrow> Inl e
           | Inr (Inl (p', n)) \<Rightarrow> Inr (Yield (InAdd p') (h(a := n)))
           | Inr (Inr (v, n)) \<Rightarrow> Inr (Finish (h(a := n \<lparr> acc := acc n + v \<rparr>))))
      | InSub p \<Rightarrow>
          (case read_src_resume p (h a) of
             Inl e \<Rightarrow> Inl e
           | Inr (Inl (p', n)) \<Rightarrow> Inr (Yield (InSub p') (h(a := n)))
           | Inr (Inr (v, n)) \<Rightarrow> Inr (Finish (h(a := n \<lparr> acc := acc n - v \<rparr>))))
      | InJro p \<Rightarrow>
          (case read_src_resume p (h a) of
             Inl e \<Rightarrow> Inl e
           | Inr (Inl (p', n)) \<Rightarrow> Inr (Yield (InJro p') (h(a := n)))
           | Inr (Inr (v, n)) \<Rightarrow>
               (case jro_tail v n of Inl e \<Rightarrow> Inl e | Inr n' \<Rightarrow> Inr (Finish (h(a := n'))))))"

subsection \<open>The generator \<^verbatim>\<open>Node.run\<close>\<close>

text \<open>
  One turn of the \<^verbatim>\<open>while True\<close> loop of \<^verbatim>\<open>run\<close>, from \<^verbatim>\<open>push_mode(RUN)\<close> to the
  first \<^verbatim>\<open>yield\<close> of the handler or to the handler's return.
\<close>

definition dispatch :: "heap \<Rightarrow> addr \<Rightarrow> error + outcome" where
  "dispatch h a =
     (let n1 = push_mode RUN (h a)
      in case get_next_op n1 of
           Inl e \<Rightarrow> Inl e
         | Inr ((opn, arg1, arg2), n2) \<Rightarrow>
             (let n3 = n2 \<lparr> next_iptr := iptr n2 + 1 \<rparr>
              in case op_table opn of
                   None \<Rightarrow> Inl AssertionError
                 | Some m \<Rightarrow> handler_start m arg1 arg2 (h(a := n3)) a))"

text \<open>
  The loop of \<^verbatim>\<open>run\<close> up to the next \<^verbatim>\<open>yield\<close>. A handler that returns without a
  \<^verbatim>\<open>yield\<close> is followed by \<^verbatim>\<open>pop_mode\<close> and the next instruction at once, so the loop
  may never reach a \<^verbatim>\<open>yield\<close>: the first argument bounds the number of instructions
  dispatched, and \<open>None\<close> says that the bound was reached.
\<close>

fun run_loop :: "nat \<Rightarrow> heap \<Rightarrow> addr \<Rightarrow> (error + (frame \<times> heap)) option" where
  "run_loop 0 h a = None"
| "run_loop (Suc k) h a =
     (case dispatch h a of
        Inl e \<Rightarrow> Some (Inl e)
      | Inr (Yield fr h') \<Rightarrow> Some (Inr (fr, h'))
      | Inr (Finish h') \<Rightarrow>
          (case pop_mode (h' a) of
             Inl e \<Rightarrow> Some (Inl e)
           | Inr n \<Rightarrow> run_loop k (h'(a := n)) a))"

text \<open>\<^verbatim>\<open>next(node_run)\<close> on the generator of node \<open>a\<close>.\<close>

definition node_next :: "nat \<Rightarrow> gen \<Rightarrow> heap \<Rightarrow> addr \<Rightarrow> (error + (frame \<times> heap)) option" where
  "node_next k g h a =
     (case g of
        NotStarted \<Rightarrow> run_loop k h a
      | Suspended fr \<Rightarrow>
          (case handler_resume fr h a of
             Inl e \<Rightarrow> Some (Inl e)
           | Inr (Yield fr' h') \<Rightarrow> Some (Inr (fr', h'))
           | Inr (Finish h') \<Rightarrow>
               (case pop_mode (h' a) of
                  Inl e \<Rightarrow> Some (Inl e)
                | Inr n \<Rightarrow> run_loop k (h'(a := n)) a)))"

section \<open>The grid and its scheduler (tis100/tis.py)\<close>

text \<open>
  The store, the list \<^verbatim>\<open>nodes\<close> (addresses, in grid order), the buffered host input
  and, once \<^verbatim>\<open>run\<close> was started, the local state of that generator: the list
  \<^verbatim>\<open>node_runs\<close> and \<open>cursor\<close>, the index of the pair the \<^verbatim>\<open>for\<close> loop takes next.
  The inner dictionary of \<^verbatim>\<open>buffered_input\<close> is an association list in the order in
  which \<^verbatim>\<open>iteritems\<close> enumerates it.
\<close>

record tis =
  heap :: heap
  nodes :: "addr list"
  buffered_input :: "addr \<rightharpoonup> (direction \<times> int list) list"
  num_buffered_inputs :: int
  node_runs :: "(addr \<times> gen) list"
  cursor :: nat

definition MAX_NODES_X :: nat where
  "MAX_NODES_X = 4"

definition MAX_NODES_Y :: nat where
  "MAX_NODES_Y = 3"

text \<open>The wiring loop of \<^verbatim>\<open>TIS.__init__\<close> for the cell \<open>(y, x)\<close>.\<close>

definition wire_cell :: "nat \<times> nat \<Rightarrow> heap \<Rightarrow> heap" where
  "wire_cell c h =
     (case c of (y, x) \<Rightarrow>
        (let node = MAX_NODES_X * y + x;
             h1 = (if 0 < y \<and> y < MAX_NODES_Y
                   then attach_node node (MAX_NODES_X * (y - 1) + x) UP True h else h)
         in if 0 < x \<and> x < MAX_NODES_X
            then attach_node node (MAX_NODES_X * y + x - 1) LEFT True h1 else h1))"

definition TIS_init :: tis where
  "TIS_init =
     \<lparr> heap = fold wire_cell
                (concat (map (\<lambda>y. map (\<lambda>x. (y, x)) [0..<MAX_NODES_X]) [0..<MAX_NODES_Y]))
                (\<lambda>_. Node_init),
       nodes = [0..<MAX_NODES_X * MAX_NODES_Y],
       buffered_input = Map.empty, num_buffered_inputs = 0, node_runs = [], cursor = 0 \<rparr>"

text \<open>
  \<^verbatim>\<open>buffer_input\<close>: the values are appended to the list buffered for the direction. Where
  a direction that is new to the inner dictionary comes in the order of \<^verbatim>\<open>iteritems\<close> is
  up to the dictionary; here it comes last.
\<close>

fun extend_entry ::
  "direction \<Rightarrow> int list \<Rightarrow> (direction \<times> int list) list \<Rightarrow> (direction \<times> int list) list" where
  "extend_entry d vs [] = [(d, vs)]"
| "extend_entry d vs ((e, ws) # q) =
     (if e = d then (e, ws @ vs) # q else (e, ws) # extend_entry d vs q)"

definition buffer_input :: "addr \<Rightarrow> direction \<Rightarrow> int list \<Rightarrow> tis \<Rightarrow> tis" where
  "buffer_input a d vs t =
     t \<lparr> num_buffered_inputs := num_buffered_inputs t + int (length vs),
         buffered_input :=
           (buffered_input t)
             (a \<mapsto> extend_entry d vs (case buffered_input t a of None \<Rightarrow> [] | Some q \<Rightarrow> q)) \<rparr>"

text \<open>
  The scan \<^verbatim>\<open>for d, values in self.buffered_input[node].iteritems()\<close> with its
  \<^verbatim>\<open>break\<close>: the first direction with a buffered value and an empty queue at the node
  gets that value. The flag says whether a value was moved.
\<close>

fun inject_first ::
  "(direction \<times> int list) list \<Rightarrow> node \<Rightarrow> (direction \<times> int list) list \<times> node \<times> bool" where
  "inject_first [] n = ([], n, False)"
| "inject_first ((d, vs) # rest) n =
     (if vs \<noteq> [] \<and> \<not> has_inputs d n then ((d, tl vs) # rest, write_input d (hd vs) n, True)
      else (case inject_first rest n of (rest', n', b) \<Rightarrow> ((d, vs) # rest', n', b)))"

text \<open>The host injection of \<^verbatim>\<open>TIS.run\<close> for the node at address \<open>a\<close>.\<close>

definition inject :: "tis \<Rightarrow> addr \<Rightarrow> error + tis" where
  "inject t a =
     (case buffered_input t a of
        None \<Rightarrow> Inr t
      | Some q \<Rightarrow>
          (case mode_of (heap t a) of
             Inl e \<Rightarrow> Inl e
           | Inr m \<Rightarrow>
               if m \<noteq> READ then Inr t
               else (case inject_first q (heap t a) of
                       (q', n', b) \<Rightarrow>
                         Inr (t \<lparr> heap := (heap t)(a := n'),
                                  buffered_input := (buffered_input t)(a \<mapsto> q'),
                                  num_buffered_inputs :=
                                    num_buffered_inputs t - (if b then 1 else 0) \<rparr>))))"

text \<open>The start of \<^verbatim>\<open>TIS.run\<close>: the generators of the loaded nodes, none started yet.\<close>

definition run_start :: "tis \<Rightarrow> tis" where
  "run_start t =
     t \<lparr> node_runs := map (\<lambda>a. (a, NotStarted)) (filter (\<lambda>a. loaded (heap t a)) (nodes t)),
         cursor := 0 \<rparr>"

text \<open>
  \<^verbatim>\<open>next\<close> on the generator \<^verbatim>\<open>TIS.run\<close>, which yields after every node it advances.
  With no loaded node the \<^verbatim>\<open>while True\<close> loop spins without a \<^verbatim>\<open>yield\<close>; the result is
  \<open>None\<close> then, as it is when the node's own loop exceeds the bound \<open>k\<close>.
\<close>

definition tis_next :: "nat \<Rightarrow> tis \<Rightarrow> (error + tis) option" where
  "tis_next k t =
     (if node_runs t = [] then None
      else
        (let c = (if cursor t < length (node_runs t) then cursor t else 0);
             a = fst (node_runs t ! c);
             g = snd (node_runs t ! c)
         in case inject t a of
              Inl e \<Rightarrow> Some (Inl e)
            | Inr t1 \<Rightarrow>
                (case node_next k g (heap t1) a of
                   None \<Rightarrow> None
                 | Some (Inl e) \<Rightarrow> Some (Inl e)
                 | Some (Inr (fr, h')) \<Rightarrow>
                     Some (Inr (t1 \<lparr> heap := h',
                                    node_runs := (node_runs t1)[c := (a, Suspended fr)],
                                    cursor := c + 1 \<rparr>)))))"

text \<open>\<open>m\<close> consecutive \<^verbatim>\<open>next\<close> calls on \<^verbatim>\<open>TIS.run\<close>.\<close>

fun tis_steps :: "nat \<Rightarrow> nat \<Rightarrow> tis \<Rightarrow> (error + tis) option" where
  "tis_steps k 0 t = Some (Inr t)"
| "tis_steps k (Suc m) t =
     (case tis_next k t of
        None \<Rightarrow> None
      | Some (Inl e) \<Rightarrow> Some (Inl e)
      | Some (Inr t') \<Rightarrow> tis_steps k m t')"

section \<open>Notions used to state the properties\<close>

text \<open>
  What a node's own reading leaves alone: every field but the mode stack, the last
  port direction and its queues, which can only get shorter.
\<close>

definition reads :: "node \<Rightarrow> node \<Rightarrow> bool" where
  "reads n n' \<longleftrightarrow>
     is_log_node n' = is_log_node n \<and> ops n' = ops n \<and> labels n' = labels n \<and>
     acc n' = acc n \<and> bak n' = bak n \<and> iptr n' = iptr n \<and> next_iptr n' = next_iptr n \<and>
     attached_nodes n' = attached_nodes n \<and> seen_inputs n' = seen_inputs n \<and>
     (\<forall>d. length (inputs n' d) \<le> length (inputs n d))"

text \<open>The operand tokens that \<^verbatim>\<open>_read_src\<close> tests for before it tries \<^verbatim>\<open>int(src)\<close>.\<close>

definition src_keywords :: "string option set" where
  "src_keywords = {Some ''BAK'', Some ''ACC'', Some ''NIL'', Some ''UP'', Some ''DOWN'',
                   Some ''LEFT'', Some ''RIGHT'', Some ''ANY'', Some ''LAST''}"

text \<open>The operand tokens that \<^verbatim>\<open>_write_dest\<close> accepts.\<close>

definition dest_keywords :: "string option set" where
  "dest_keywords = {Some ''ACC'', Some ''NIL'', Some ''UP'', Some ''DOWN'', Some ''LEFT'',
                    Some ''RIGHT'', Some ''ANY'', Some ''LAST''}"

text \<open>A conditional jump whose test on the value \<open>v\<close> of \<open>acc\<close> fails.\<close>

definition untaken :: "handler \<Rightarrow> int \<Rightarrow> bool" where
  "untaken m v \<longleftrightarrow>
     (m = H_jez \<and> v \<noteq> 0) \<or> (m = H_jnz \<and> v = 0) \<or> (m = H_jgz \<and> v \<le> 0) \<or> (m = H_jlz \<and> v \<ge> 0)"

text \<open>The handlers with a single \<^verbatim>\<open>yield\<close> at their end.\<close>

definition tail_handlers :: "handler set" where
  "tail_handlers = {H_nop, H_swp, H_sav, H_neg, H_jmp, H_jez, H_jnz, H_jgz, H_jlz}"

subsection \<open>Example states\<close>

text \<open>A lone node with \<open>acc = 1\<close> and \<open>bak = 2\<close> whose program is SAV, SWP, SWP.\<close>

definition sss :: "instr list \<times> (string \<rightharpoonup> nat)" where
  "sss = ([(''SAV'', None, None), (''SWP'', None, None), (''SWP'', None, None)], Map.empty)"

definition h_sss :: heap where
  "h_sss = (\<lambda>_. Node_init)(0 := load_bytecode sss (Node_init \<lparr> acc := 1, bak := 2 \<rparr>))"

text \<open>A lone fresh node whose program is ADD 999, ADD 1.\<close>

definition prog_add :: "instr list \<times> (string \<rightharpoonup> nat)" where
  "prog_add = ([(''ADD'', Some ''999'', None), (''ADD'', Some ''1'', None)], Map.empty)"

definition h_add :: heap where
  "h_add = (\<lambda>_. Node_init)(0 := load_bytecode prog_add Node_init)"

text \<open>A node with values waiting on UP and on LEFT.\<close>

definition n_up_left :: node where
  "n_up_left = Node_init \<lparr> inputs := (\<lambda>_. [])(UP := [7], LEFT := [9]) \<rparr>"

text \<open>A lone fresh node whose program is \<^verbatim>\<open>L: JNZ L\<close> followed by NOP.\<close>

definition prog_jnz :: "instr list \<times> (string \<rightharpoonup> nat)" where
  "prog_jnz = ([(''JNZ'', Some ''L'', None), (''NOP'', None, None)], [''L'' \<mapsto> 0])"

definition h_jnz :: heap where
  "h_jnz = (\<lambda>_. Node_init)(0 := load_bytecode prog_jnz Node_init)"

text \<open>A lone fresh node whose program is JRO 1, NOP, NOP.\<close>

definition prog_jro :: "instr list \<times> (string \<rightharpoonup> nat)" where
  "prog_jro = ([(''JRO'', Some ''1'', None), (''NOP'', None, None), (''NOP'', None, None)],
               Map.empty)"

definition h_jro :: heap where
  "h_jro = (\<lambda>_. Node_init)(0 := load_bytecode prog_jro Node_init)"

text \<open>The grid of \<^verbatim>\<open>TIS()\<close> with the given program loaded into node 0, \<^verbatim>\<open>run\<close> started.\<close>

definition grid_loaded :: "instr list \<times> (string \<rightharpoonup> nat) \<Rightarrow> tis" where
  "grid_loaded compiled =
     TIS_init \<lparr> heap := (heap TIS_init)(0 := load_bytecode compiled (heap TIS_init 0)) \<rparr>"

definition grid_with :: "instr list \<times> (string \<rightharpoonup> nat) \<Rightarrow> tis" where
  "grid_with compiled = run_start (grid_loaded compiled)"

text \<open>The grid with MOV UP, ACC in node 0 and the host values 5 and 6 buffered for its UP.\<close>

definition prog_in :: "instr list \<times> (string \<rightharpoonup> nat)" where
  "prog_in = ([(''MOV'', Some ''UP'', Some ''ACC'')], Map.empty)"

definition grid_host :: tis where
  "grid_host = buffer_input 0 UP [5, 6] (grid_loaded prog_in)"

definition prog_edge :: "instr list \<times> (string \<rightharpoonup> nat)" where
  "prog_edge = ([(''MOV'', Some ''1'', Some ''UP''), (''NOP'', None, None)], Map.empty)"

definition prog_any :: "instr list \<times> (string \<rightharpoonup> nat)" where
  "prog_any = ([(''MOV'', Some ''1'', Some ''ANY'')], Map.empty)"

text \<open>
  The grid with NOP, MOV 1, DOWN loaded into node 0 and MOV LEFT, ACC into node 4 (the
  node below node 0), the host having buffered the value 5 for the queue UP of node 4.
\<close>

definition prog_nop_send :: "instr list \<times> (string \<rightharpoonup> nat)" where
  "prog_nop_send = ([(''NOP'', None, None), (''MOV'', Some ''1'', Some ''DOWN'')], Map.empty)"

definition prog_left :: "instr list \<times> (string \<rightharpoonup> nat)" where
  "prog_left = ([(''MOV'', Some ''LEFT'', Some ''ACC'')], Map.empty)"

definition grid_pair :: tis where
  "grid_pair =
     buffer_input 4 UP [5]
       (TIS_init \<lparr> heap := (heap TIS_init)
          (0 := load_bytecode prog_nop_send (heap TIS_init 0),
           4 := load_bytecode prog_left (heap TIS_init 4)) \<rparr>)"

subsection \<open>What a step changes\<close>

text \<open>
  \<open>same_regs\<close>: two states of a node agree on everything but the queues and the
  LogNode's record of values. \<open>owns\<close>: what the node that is being advanced keeps of
  itself (its class, program and wiring), and \<^verbatim>\<open>next_iptr\<close> stays non-negative if it
  was. \<open>frame a h h'\<close>: a step of node \<open>a\<close> from the store \<open>h\<close> to the store \<open>h'\<close> changes
  no register of another node.
\<close>

definition same_regs :: "node \<Rightarrow> node \<Rightarrow> bool" where
  "same_regs n n' \<longleftrightarrow>
     is_log_node n' = is_log_node n \<and> ops n' = ops n \<and> labels n' = labels n \<and>
     acc n' = acc n \<and> bak n' = bak n \<and> iptr n' = iptr n \<and> next_iptr n' = next_iptr n \<and>
     mode_stack n' = mode_stack n \<and> last_port_dir n' = last_port_dir n \<and>
     attached_nodes n' = attached_nodes n"

definition owns :: "node \<Rightarrow> node \<Rightarrow> bool" where
  "owns n n' \<longleftrightarrow>
     is_log_node n' = is_log_node n \<and> ops n' = ops n \<and> labels n' = labels n \<and>
     attached_nodes n' = attached_nodes n \<and> (0 \<le> next_iptr n \<longrightarrow> 0 \<le> next_iptr n')"

definition frame :: "addr \<Rightarrow> heap \<Rightarrow> heap \<Rightarrow> bool" where
  "frame a h h' \<longleftrightarrow> (\<forall>b. b \<noteq> a \<longrightarrow> same_regs (h b) (h' b)) \<and> owns (h a) (h' a)"

fun heap_of :: "outcome \<Rightarrow> heap" where
  "heap_of (Yield fr h) = h"
| "heap_of (Finish h) = h"

text \<open>The states of \<^verbatim>\<open>TIS.run\<close> that \<^verbatim>\<open>next\<close> calls can reach from the machine \<open>t0\<close>.\<close>

inductive reach :: "tis \<Rightarrow> tis \<Rightarrow> bool" for t0 :: tis where
  start: "reach t0 (run_start t0)"
| step: "reach t0 t \<Longrightarrow> tis_next k t = Some (Inr t') \<Longrightarrow> reach t0 t'"

text \<open>The instruction fetch of a node succeeds and stays inside the program.\<close>

definition fetch_ok :: "node \<Rightarrow> bool" where
  "fetch_ok n \<longleftrightarrow>
     (\<exists>os n'. ops n = Some os \<and> 0 \<le> iptr n' \<and> iptr n' < int (length os) \<and>
        get_next_op (push_mode RUN n) = Inr (os ! nat (iptr n'), n'))"

text \<open>How many values the host has buffered for the queue \<open>d\<close> of the node at \<open>b\<close>.\<close>

definition buffered :: "tis \<Rightarrow> addr \<Rightarrow> direction \<Rightarrow> nat" where
  "buffered t b d =
     (case buffered_input t b of
        None \<Rightarrow> 0
      | Some q \<Rightarrow> sum_list (map (\<lambda>e. length (snd e)) (filter (\<lambda>e. fst e = d) q)))"

text \<open>The index in \<^verbatim>\<open>node_runs\<close> of the pair that the \<^verbatim>\<open>for\<close> loop of \<^verbatim>\<open>TIS.run\<close> takes next.\<close>

definition next_index :: "tis \<Rightarrow> nat" where
  "next_index t = (if cursor t < length (node_runs t) then cursor t else 0)"

subsection \<open>The one-slot discipline\<close>

text \<open>
  \<open>no_any_dest\<close>: no instruction of the node's program has ANY as its second operand.
  \<open>frame_no_any\<close>: the suspended handler is not a MOV to ANY.
\<close>

definition no_any_dest :: "node \<Rightarrow> bool" where
  "no_any_dest n \<longleftrightarrow> (\<forall>os ins. ops n = Some os \<and> ins \<in> set os \<longrightarrow> snd (snd ins) \<noteq> Some ''ANY'')"

fun frame_no_any :: "frame \<Rightarrow> bool" where
  "frame_no_any (InMovRead dest p) = (dest \<noteq> Some ''ANY'')"
| "frame_no_any (InMovWrite (AnyWritePoll v)) = False"
| "frame_no_any fr = True"

fun gen_no_any :: "gen \<Rightarrow> bool" where
  "gen_no_any NotStarted = True"
| "gen_no_any (Suspended fr) = frame_no_any fr"

fun not_writing :: "frame \<Rightarrow> bool" where
  "not_writing (InMovWrite p) = False"
| "not_writing fr = True"

text \<open>
  \<open>qle n n'\<close>: no queue of the node is longer in \<open>n'\<close> than in \<open>n\<close>. \<open>shrink a h h'\<close>: from
  \<open>h\<close> to \<open>h'\<close> the queues of every node but \<open>a\<close> are the same and no queue of \<open>a\<close> got
  longer. \<open>sent p od v h h'\<close>: from \<open>h\<close> to \<open>h'\<close> the value \<open>v\<close> was appended to the queue
  \<open>od\<close> of node \<open>p\<close> and no other queue changed.
\<close>

definition qle :: "node \<Rightarrow> node \<Rightarrow> bool" where
  "qle n n' \<longleftrightarrow> (\<forall>d. length (inputs n' d) \<le> length (inputs n d))"

definition shrink :: "addr \<Rightarrow> heap \<Rightarrow> heap \<Rightarrow> bool" where
  "shrink a h h' \<longleftrightarrow> (\<forall>b. b \<noteq> a \<longrightarrow> inputs (h' b) = inputs (h b)) \<and> qle (h a) (h' a)"

definition sent :: "addr \<Rightarrow> direction \<Rightarrow> int \<Rightarrow> heap \<Rightarrow> heap \<Rightarrow> bool" where
  "sent p od v h h' \<longleftrightarrow>
     (\<forall>b d. inputs (h' b) d = (if b = p \<and> d = od then inputs (h b) d @ [v] else inputs (h b) d))"

text \<open>
  What a step of node \<open>a\<close> from the generator state \<open>g\<close> and the store \<open>h\<close> to the frame
  \<open>fr\<close> and the store \<open>h'\<close> does to the queues when no MOV to ANY is involved: either no
  queue grows, and a writer that was waiting for the queue \<open>od\<close> of its peer \<open>p\<close> to
  empty goes on waiting unless that queue is empty; or the node was not waiting, has
  appended one value to the queue of an attached peer, and is now waiting for that
  queue to empty.
\<close>

definition quiet_step :: "addr \<Rightarrow> gen \<Rightarrow> heap \<Rightarrow> frame \<Rightarrow> heap \<Rightarrow> bool" where
  "quiet_step a g h fr h' \<longleftrightarrow>
     shrink a h h' \<and>
     (\<forall>p od. g = Suspended (InMovWrite (WriteWait p od)) \<longrightarrow>
        fr = InMovWrite (WriteWait p od) \<or> inputs (h p) od = [])"

definition send_step :: "addr \<Rightarrow> gen \<Rightarrow> heap \<Rightarrow> frame \<Rightarrow> heap \<Rightarrow> bool" where
  "send_step a g h fr h' \<longleftrightarrow>
     (\<exists>dest rp D p v.
        g = Suspended (InMovRead dest rp) \<and> attached_nodes (h a) D = Some p \<and>
        fr = InMovWrite (WriteWait p (opposite_directions D)) \<and>
        sent p (opposite_directions D) v h h')"

text \<open>
  The conditions on the machine under which the queues stay one-slot mailboxes: each
  queue has at most one node wired to write to it, no program has a MOV to ANY, and
  the host buffers input only for queues that no node is wired to write to.
\<close>

definition wired_once :: "heap \<Rightarrow> bool" where
  "wired_once h \<longleftrightarrow>
     (\<forall>w w' D r. attached_nodes (h w) D = Some r \<and> attached_nodes (h w') D = Some r \<longrightarrow> w = w')"

definition host_apart :: "tis \<Rightarrow> bool" where
  "host_apart t \<longleftrightarrow>
     (\<forall>b q d vs w. buffered_input t b = Some q \<and> (d, vs) \<in> set q \<and> vs \<noteq> [] \<longrightarrow>
        attached_nodes (heap t w) (opposite_directions d) \<noteq> Some b)"

definition one_slot_machine :: "tis \<Rightarrow> bool" where
  "one_slot_machine t \<longleftrightarrow>
     distinct (nodes t) \<and> wired_once (heap t) \<and> host_apart t \<and>
     (\<forall>b. no_any_dest (heap t b)) \<and> (\<forall>b d. inputs (heap t b) d = [])"

text \<open>
  The invariant: every queue holds at most one value, and while a queue holds one,
  every node wired to write to it is suspended in the wait loop of its blocking write
  to that queue.
\<close>

definition one_slot :: "tis \<Rightarrow> bool" where
  "one_slot t \<longleftrightarrow>
     (\<forall>r d. length (inputs (heap t r) d) \<le> 1 \<and>
        (inputs (heap t r) d \<noteq> [] \<longrightarrow>
           (\<forall>w. attached_nodes (heap t w) (opposite_directions d) = Some r \<longrightarrow>
              (w, Suspended (InMovWrite (WriteWait r d))) \<in> set (node_runs t))))"

text \<open>Everything that the run keeps true of a one-slot machine.\<close>

definition one_slot_inv :: "tis \<Rightarrow> bool" where
  "one_slot_inv t \<longleftrightarrow>
     wired_once (heap t) \<and> host_apart t \<and> (\<forall>b. no_any_dest (heap t b)) \<and>
     (\<forall>e \<in> set (node_runs t). gen_no_any (snd e)) \<and> distinct (map fst (node_runs t)) \<and>
     one_slot t"

text \<open>The program MOV 1, DOWN (for node 0 of the grid, whose neighbour below is node 4).\<close>

definition prog_send :: "instr list \<times> (string \<rightharpoonup> nat)" where
  "prog_send = ([(''MOV'', Some ''1'', Some ''DOWN'')], Map.empty)"

subsection \<open>The mode stack and the fetches inside a step\<close>

text \<open>
  How many frames of the mode stack a suspended generator has pushed and will pop when
  it goes on, the RUN frame of \<^verbatim>\<open>run\<close> not counted: the READ frame of a blocking
  \<^verbatim>\<open>_read_input\<close> that waits or of the \<^verbatim>\<open>ANY\<close> branch of \<^verbatim>\<open>_read_src\<close>, the WRITE frame
  of a blocking \<^verbatim>\<open>_write_output\<close> that waits or of the \<^verbatim>\<open>ANY\<close> branch of \<^verbatim>\<open>_write_dest\<close>.
\<close>

fun owed_r :: "rpos \<Rightarrow> nat" where
  "owed_r (ReadWait d) = 1"
| "owed_r (ReadValue v) = 0"
| "owed_r (AnyReadValue v) = 1"
| "owed_r AnyReadPoll = 1"

fun owed_w :: "wpos \<Rightarrow> nat" where
  "owed_w (WriteWait p od) = 1"
| "owed_w WriteDone = 0"
| "owed_w (AnyWritePoll v) = 1"

fun owed_wo :: "wpos option \<Rightarrow> nat" where
  "owed_wo None = 0"
| "owed_wo (Some p) = owed_w p"

fun owed :: "frame \<Rightarrow> nat" where
  "owed InTail = 0"
| "owed (InMovRead dest p) = owed_r p"
| "owed (InMovWrite p) = owed_w p"
| "owed (InAdd p) = owed_r p"
| "owed (InSub p) = owed_r p"
| "owed (InJro p) = owed_r p"

text \<open>The frames a generator of \<^verbatim>\<open>run\<close> will pop: none before its first \<^verbatim>\<open>next\<close>, the RUN
  frame and those of its handler afterwards.\<close>

fun owed_gen :: "gen \<Rightarrow> nat" where
  "owed_gen NotStarted = 0"
| "owed_gen (Suspended fr) = 1 + owed fr"

text \<open>
  Results that are no IndexError and leave at least \<open>b\<close> frames on the mode stack
  (of the node, or of the node at \<open>a\<close>) below those that the new position will pop.
\<close>

definition rd_ok :: "nat \<Rightarrow> error + (rpos \<times> node) \<Rightarrow> bool" where
  "rd_ok b r \<longleftrightarrow>
     r \<noteq> Inl IndexError \<and> (\<forall>p n. r = Inr (p, n) \<longrightarrow> b + owed_r p \<le> length (mode_stack n))"

definition wr_ok :: "nat \<Rightarrow> addr \<Rightarrow> error + (wpos option \<times> heap) \<Rightarrow> bool" where
  "wr_ok b a r \<longleftrightarrow>
     r \<noteq> Inl IndexError \<and>
     (\<forall>p h. r = Inr (p, h) \<longrightarrow> b + owed_wo p \<le> length (mode_stack (h a)))"

definition out_ok :: "nat \<Rightarrow> addr \<Rightarrow> error + outcome \<Rightarrow> bool" where
  "out_ok b a r \<longleftrightarrow>
     r \<noteq> Inl IndexError \<and>
     (\<forall>fr h. r = Inr (Yield fr h) \<longrightarrow> b + owed fr \<le> length (mode_stack (h a))) \<and>
     (\<forall>h. r = Inr (Finish h) \<longrightarrow> b \<le> length (mode_stack (h a)))"

definition next_ok :: "addr \<Rightarrow> (error + (frame \<times> heap)) option \<Rightarrow> bool" where
  "next_ok a r \<longleftrightarrow>
     r \<noteq> Some (Inl IndexError) \<and>
     (\<forall>fr h. r = Some (Inr (fr, h)) \<longrightarrow> owed_gen (Suspended fr) \<le> length (mode_stack (h a)))"

text \<open>Every generator of \<^verbatim>\<open>TIS.run\<close> finds the frames it will pop, and one more before
  its first \<^verbatim>\<open>next\<close> (the frame that \<^verbatim>\<open>node.mode\<close> reads for the injection).\<close>

definition stacks_ok :: "tis \<Rightarrow> bool" where
  "stacks_ok t \<longleftrightarrow>
     (\<forall>e \<in> set (node_runs t).
        owed_gen (snd e) \<le> length (mode_stack (heap t (fst e))) \<and>
        mode_stack (heap t (fst e)) \<noteq> [])"

text \<open>
  The stores in which the loop of \<^verbatim>\<open>run\<close> fetches an instruction before its next
  \<^verbatim>\<open>yield\<close>, in order: the store it is entered in, and after each handler that returned
  without a \<^verbatim>\<open>yield\<close> the store after the \<^verbatim>\<open>pop_mode\<close> of \<^verbatim>\<open>run\<close>. The first argument
  bounds the number of instructions, as in \<open>run_loop\<close>.
\<close>

fun loop_fetches :: "nat \<Rightarrow> heap \<Rightarrow> addr \<Rightarrow> heap list" where
  "loop_fetches 0 h a = []"
| "loop_fetches (Suc k) h a =
     h # (case dispatch h a of
            Inr (Finish h') \<Rightarrow>
              (case pop_mode (h' a) of Inl e \<Rightarrow> [] | Inr n \<Rightarrow> loop_fetches k (h'(a := n)) a)
          | _ \<Rightarrow> [])"

text \<open>The stores in which one \<^verbatim>\<open>next\<close> of the generator of node \<open>a\<close> fetches an
  instruction: none when the resumed handler suspends again or raises.\<close>

definition next_fetches :: "nat \<Rightarrow> gen \<Rightarrow> heap \<Rightarrow> addr \<Rightarrow> heap list" where
  "next_fetches k g h a =
     (case g of
        NotStarted \<Rightarrow> loop_fetches k h a
      | Suspended fr \<Rightarrow>
          (case handler_resume fr h a of
             Inr (Finish h') \<Rightarrow>
               (case pop_mode (h' a) of Inl e \<Rightarrow> [] | Inr n \<Rightarrow> loop_fetches k (h'(a := n)) a)
           | _ \<Rightarrow> []))"

section \<open>Basic facts\<close>

lemma pop_push_mode [simp]: "pop_mode (push_mode m n) = Inr n"
  by (simp add: pop_mode_def push_mode_def)

lemma reads_refl [simp]: "reads n n"
  by (simp add: reads_def)

lemma reads_trans: "reads n n' \<Longrightarrow> reads n' n'' \<Longrightarrow> reads n n''"
  unfolding reads_def by (metis (no_types, lifting) order_trans)

lemma reads_push [simp]: "reads n (push_mode m n)"
  by (simp add: reads_def push_mode_def)

lemma reads_pop: "pop_mode n = Inr n' \<Longrightarrow> reads n n'"
  by (auto simp: reads_def pop_mode_def split: if_splits)

lemma reads_read_input_loop: "read_input_loop d n = Inr (p, n') \<Longrightarrow> reads n n'"
  by (auto simp: read_input_loop_def read_input_def pop_mode_def reads_def
      split: if_splits list.splits sum.splits)

lemma reads_read_input_start: "read_input_start dopt n = Inr (p, n') \<Longrightarrow> reads n n'"
  by (auto simp: read_input_start_def get_attached_node_def Let_def
      split: option.splits dest!: reads_read_input_loop intro: reads_trans [OF reads_push])

lemma reads_read_input_nb: "read_input_nb d n = Inr (r, n') \<Longrightarrow> reads n n'"
  by (auto simp: read_input_nb_def read_input_def get_attached_node_def pop_mode_def push_mode_def
      has_inputs_def reads_def Let_def split: if_splits list.splits sum.splits)

lemma reads_any_read_pass: "any_read_pass ds n = Inr (p, n') \<Longrightarrow> reads n n'"
proof (induction ds arbitrary: n)
  case Nil
  then show ?case by simp
next
  case (Cons d ds)
  then show ?case
    by (auto split: sum.splits option.splits dest: reads_read_input_nb intro: reads_trans)
qed

lemma reads_any_read_push:
  "any_read_pass ds (push_mode m n) = Inr (p, n') \<Longrightarrow> reads n n'"
  using reads_trans [OF reads_push reads_any_read_pass] by blast

lemma read_src_start_simps:
  "read_src_start (Some ''BAK'') n = Inl AssertionError"
  "read_src_start (Some ''ACC'') n = Inr (ReadValue (acc n), n)"
  "read_src_start (Some ''NIL'') n = Inl NameError"
  "read_src_start (Some ''UP'') n = read_input_start (Some UP) n"
  "read_src_start (Some ''DOWN'') n = read_input_start (Some DOWN) n"
  "read_src_start (Some ''LEFT'') n = read_input_start (Some LEFT) n"
  "read_src_start (Some ''RIGHT'') n = read_input_start (Some RIGHT) n"
  "read_src_start (Some ''ANY'') n = any_read_pass DIRECTIONS (push_mode READ n)"
  "read_src_start (Some ''LAST'') n = read_input_start (last_port_dir n) n"
  by (simp_all add: read_src_start_def label_to_direction_def)

lemma read_src_start_literal:
  "src \<notin> src_keywords \<Longrightarrow>
   read_src_start src n =
     (case src of
        None \<Rightarrow> Inl TypeError
      | Some s \<Rightarrow> (case py_int s of None \<Rightarrow> Inl ValueError | Some v \<Rightarrow> Inr (ReadValue v, n)))"
  by (simp add: read_src_start_def src_keywords_def)

lemma reads_read_src_start: "read_src_start src n = Inr (p, n') \<Longrightarrow> reads n n'"
proof (cases "src \<in> src_keywords")
  case True
  assume "read_src_start src n = Inr (p, n')"
  with True show ?thesis
    unfolding src_keywords_def
    by (auto simp: read_src_start_simps dest: reads_read_input_start reads_any_read_push)
next
  case False
  assume "read_src_start src n = Inr (p, n')"
  with False show ?thesis
    by (auto simp: read_src_start_literal split: option.splits)
qed

lemma reads_read_src_resume_yield: "read_src_resume p n = Inr (Inl (p', n')) \<Longrightarrow> reads n n'"
  by (cases p) (auto simp: read_src_resume_def split: sum.splits
      dest: reads_read_input_loop reads_any_read_pass)

lemma read_src_resume_done:
  assumes "read_src_resume p n = Inr (Inr (v, n'))"
  shows "(p = ReadValue v \<and> n' = n) \<or>
         (p = AnyReadValue v \<and> mode_stack n \<noteq> [] \<and>
          n' = n \<lparr> mode_stack := butlast (mode_stack n) \<rparr>)"
  using assms
  by (cases p) (auto simp: read_src_resume_def pop_mode_def split: sum.splits if_splits)

lemma reads_read_src_resume_done: "read_src_resume p n = Inr (Inr (v, n')) \<Longrightarrow> reads n n'"
  by (auto dest!: read_src_resume_done simp: reads_def)

lemma reading_yields: "reading fr src h a = Inr out \<Longrightarrow> \<exists>p h'. out = Yield (fr p) h'"
  by (auto simp: reading_def split: sum.splits)

lemma reading_reads:
  "reading fr src h a = Inr (Yield f h') \<Longrightarrow> (\<exists>n'. h' = h(a := n') \<and> reads (h a) n')"
  by (auto simp: reading_def split: sum.splits dest: reads_read_src_start)

lemma cond_jmp_finish: "cond_jmp c l h a = Inr (Finish h') \<longleftrightarrow> \<not> c \<and> h' = h"
  by (auto simp: cond_jmp_def split: sum.splits)

lemma cond_jmp_yield: "cond_jmp c l h a = Inr (Yield fr h') \<Longrightarrow> c \<and> fr = InTail"
  by (auto simp: cond_jmp_def split: sum.splits if_splits)

lemma handler_start_finish:
  "handler_start m x y h a = Inr (Finish h') \<longleftrightarrow> untaken m (acc (h a)) \<and> h' = h"
  by (cases m) (auto simp: untaken_def cond_jmp_finish dest: reading_yields)

lemma handler_start_tail:
  "m \<in> tail_handlers \<Longrightarrow> handler_start m x y h a = Inr (Yield fr h') \<Longrightarrow> fr = InTail"
  by (cases m) (auto simp: tail_handlers_def dest: cond_jmp_yield)

lemma handler_start_reading:
  "m \<notin> tail_handlers \<Longrightarrow> handler_start m x y h a = Inr out \<Longrightarrow>
   \<exists>fr h'. out = Yield fr h' \<and> fr \<noteq> InTail"
  by (cases m) (auto simp: tail_handlers_def dest: reading_yields)

section \<open>Single instructions\<close>

text \<open>The fetch of \<^verbatim>\<open>run\<close> when \<^verbatim>\<open>next_iptr\<close> points into the program.\<close>

lemma dispatch_at:
  assumes "ops (h a) = Some os" and "next_iptr (h a) = int i" and "i < length os"
    and "os ! i = (opn, x, y)" and "op_table opn = Some m"
  shows "dispatch h a =
    handler_start m x y
      (h(a := (push_mode RUN (h a)) \<lparr> iptr := int i, next_iptr := int i + 1 \<rparr>)) a"
  using assms
  by (simp add: dispatch_def get_next_op_def py_index_def push_mode_def Let_def)

lemma op_table_simps:
  "op_table ''NOP'' = Some H_nop" "op_table ''MOV'' = Some H_mov" "op_table ''SWP'' = Some H_swp"
  "op_table ''SAV'' = Some H_sav" "op_table ''ADD'' = Some H_add" "op_table ''SUB'' = Some H_sub"
  "op_table ''NEG'' = Some H_neg" "op_table ''JMP'' = Some H_jmp" "op_table ''JEZ'' = Some H_jez"
  "op_table ''JNZ'' = Some H_jnz" "op_table ''JGZ'' = Some H_jgz" "op_table ''JLZ'' = Some H_jlz"
  "op_table ''JRO'' = Some H_jro"
  by (simp_all add: op_table_def)

lemma next_tail:
  "mode_stack (h a) \<noteq> [] \<Longrightarrow>
   node_next k (Suspended InTail) h a =
     run_loop k (h(a := (h a) \<lparr> mode_stack := butlast (mode_stack (h a)) \<rparr>)) a"
  by (simp add: node_next_def handler_resume_def pop_mode_def)

lemma run_sav:
  assumes "ops (h a) = Some os" and "next_iptr (h a) = int i" and "i < length os"
    and "os ! i = (''SAV'', x, y)"
  shows "\<exists>h'. run_loop (Suc k) h a = Some (Inr (InTail, h')) \<and> ops (h' a) = Some os \<and>
           next_iptr (h' a) = int (i + 1) \<and> mode_stack (h' a) = mode_stack (h a) @ [RUN] \<and>
           acc (h' a) = acc (h a) \<and> bak (h' a) = acc (h a)"
  using assms
  by (simp add: dispatch_at [where m = H_sav] op_table_simps push_mode_def)

lemma run_swp:
  assumes "ops (h a) = Some os" and "next_iptr (h a) = int i" and "i < length os"
    and "os ! i = (''SWP'', x, y)"
  shows "\<exists>h'. run_loop (Suc k) h a = Some (Inr (InTail, h')) \<and> ops (h' a) = Some os \<and>
           next_iptr (h' a) = int (i + 1) \<and> mode_stack (h' a) = mode_stack (h a) @ [RUN] \<and>
           acc (h' a) = bak (h a) \<and> bak (h' a) = acc (h a)"
  using assms
  by (simp add: dispatch_at [where m = H_swp] op_table_simps push_mode_def)

text \<open>Unfolding everything that one \<^verbatim>\<open>next\<close> of a node evaluates on a concrete state.\<close>

lemmas run_defs = node_next_def dispatch_def get_next_op_def py_index_def push_mode_def
  pop_mode_def handler_resume_def reading_def cond_jmp_def jmp_def jro_tail_def
  read_src_start_simps read_src_start_literal src_keywords_def read_src_resume_def
  py_int_def digit_of_def op_table_simps mov_write_def Let_def

subsection \<open>SAV, SWP, SWP\<close>

text \<open>
  Claim C9, as amended. A node that runs the three instructions SAV, SWP, SWP in a row
  (at the indices \<open>i\<close>, \<open>i + 1\<close>, \<open>i + 2\<close> of its program) is suspended once in each of
  them, and after the third \<^verbatim>\<open>next\<close> both \<open>acc\<close> and \<open>bak\<close> hold the value \<open>acc\<close> had
  before: SAV overwrites \<open>bak\<close> with \<open>acc\<close>, so the original \<open>bak\<close> is lost and the two
  exchanges swap equal values.
\<close>

theorem sav_swp_swp_keeps_acc:
  assumes prog: "ops (h a) = Some os" and at: "next_iptr (h a) = int i"
    and len: "i + 2 < length os"
    and i0: "os ! i = (''SAV'', x1, y1)" and i1: "os ! (i + 1) = (''SWP'', x2, y2)"
    and i2: "os ! (i + 2) = (''SWP'', x3, y3)"
  shows "\<exists>h1 h2 h3.
           node_next (Suc k) NotStarted h a = Some (Inr (InTail, h1)) \<and>
           node_next (Suc k) (Suspended InTail) h1 a = Some (Inr (InTail, h2)) \<and>
           node_next (Suc k) (Suspended InTail) h2 a = Some (Inr (InTail, h3)) \<and>
           acc (h3 a) = acc (h a) \<and> bak (h3 a) = acc (h a)"
proof -
  from len have l0: "i < length os" and l1: "i + 1 < length os" by simp_all
  obtain h1 where s1: "run_loop (Suc k) h a = Some (Inr (InTail, h1))"
    and p1: "ops (h1 a) = Some os" "next_iptr (h1 a) = int (i + 1)"
      "mode_stack (h1 a) = mode_stack (h a) @ [RUN]"
    and v1: "acc (h1 a) = acc (h a)" "bak (h1 a) = acc (h a)"
    using run_sav [of h a os i x1 y1 k] prog at l0 i0 by blast
  let ?g1 = "h1(a := (h1 a) \<lparr> mode_stack := butlast (mode_stack (h1 a)) \<rparr>)"
  have n1: "node_next (Suc k) (Suspended InTail) h1 a = run_loop (Suc k) ?g1 a"
    using p1 by (simp add: next_tail)
  obtain h2 where s2: "run_loop (Suc k) ?g1 a = Some (Inr (InTail, h2))"
    and p2: "ops (h2 a) = Some os" "next_iptr (h2 a) = int (i + 1 + 1)"
      "mode_stack (h2 a) = mode_stack (?g1 a) @ [RUN]"
    and v2: "acc (h2 a) = bak (?g1 a)" "bak (h2 a) = acc (?g1 a)"
    using run_swp [of ?g1 a os "i + 1" x2 y2 k] p1 l1 i1 by auto
  let ?g2 = "h2(a := (h2 a) \<lparr> mode_stack := butlast (mode_stack (h2 a)) \<rparr>)"
  have n2: "node_next (Suc k) (Suspended InTail) h2 a = run_loop (Suc k) ?g2 a"
    using p2 by (simp add: next_tail)
  obtain h3 where s3: "run_loop (Suc k) ?g2 a = Some (Inr (InTail, h3))"
    and v3: "acc (h3 a) = bak (?g2 a)" "bak (h3 a) = acc (?g2 a)"
    using run_swp [of ?g2 a os "i + 2" x3 y3 k] p2 len i2 by auto
  have "node_next (Suc k) NotStarted h a = Some (Inr (InTail, h1))"
    using s1 by (simp add: node_next_def)
  moreover have "node_next (Suc k) (Suspended InTail) h1 a = Some (Inr (InTail, h2))"
    using n1 s2 by simp
  moreover have "node_next (Suc k) (Suspended InTail) h2 a = Some (Inr (InTail, h3))"
    using n2 s3 by simp
  moreover have "acc (h3 a) = acc (h a)" "bak (h3 a) = acc (h a)"
    using v1 v2 v3 by simp_all
  ultimately show ?thesis by blast
qed

theorem sav_swp_swp_keeps_acc_witness:
  "\<exists>h1 h2 h3.
     node_next (Suc 0) NotStarted h_sss 0 = Some (Inr (InTail, h1)) \<and>
     node_next (Suc 0) (Suspended InTail) h1 0 = Some (Inr (InTail, h2)) \<and>
     node_next (Suc 0) (Suspended InTail) h2 0 = Some (Inr (InTail, h3)) \<and>
     acc (h3 0) = 1 \<and> bak (h3 0) = 1"
  using sav_swp_swp_keeps_acc [of h_sss 0 "fst sss" 0 None None None None None None 0]
  by (simp add: h_sss_def sss_def load_bytecode_def Node_init_def)

text \<open>
  Claim C9 as stated fails on the node \<open>h_sss 0\<close>: the three instructions run, the
  original \<open>bak\<close> was 2 and \<open>acc\<close> is not 2 afterwards.
\<close>

theorem sav_swp_swp_counterexample:
  "\<exists>h1 h2 h3.
     node_next (Suc 0) NotStarted h_sss 0 = Some (Inr (InTail, h1)) \<and>
     node_next (Suc 0) (Suspended InTail) h1 0 = Some (Inr (InTail, h2)) \<and>
     node_next (Suc 0) (Suspended InTail) h2 0 = Some (Inr (InTail, h3)) \<and>
     bak (h_sss 0) = 2 \<and> acc (h3 0) \<noteq> bak (h_sss 0)"
  by (simp add: h_sss_def sss_def load_bytecode_def Node_init_def run_defs)

subsection \<open>The source operand NIL\<close>

text \<open>
  Claim C5 (a defect of the code): \<^verbatim>\<open>_read_src\<close> executes \<^verbatim>\<open>yield NIL\<close>, and the name
  \<^verbatim>\<open>NIL\<close> is bound nowhere, so evaluating the source operand NIL raises a NameError
  instead of yielding 0; MOV and ADD with that source raise it when they start.
\<close>

theorem nil_source_raises:
  "read_src_start (Some ''NIL'') n = Inl NameError \<and>
   handler_start H_mov (Some ''NIL'') dest h a = Inl NameError \<and>
   handler_start H_add (Some ''NIL'') x h a = Inl NameError"
  by (simp add: read_src_start_simps reading_def)

subsection \<open>No clamping\<close>

text \<open>
  Claim C2, as amended. Once the source of an ADD, a SUB or a MOV to ACC has delivered
  its value \<open>v\<close> (the handler's loop over \<^verbatim>\<open>_read_src\<close> is exhausted), the handler
  returns with \<open>acc\<close> set to \<open>acc + v\<close>, to \<open>acc - v\<close> and to \<open>v\<close> respectively: the sum,
  the difference and the moved value are stored as they are, nothing is clamped.
\<close>

theorem add_sub_mov_unclamped:
  assumes "read_src_resume p (h a) = Inr (Inr (v, n))"
  shows "(\<exists>h'. handler_resume (InAdd p) h a = Inr (Finish h') \<and> acc (h' a) = acc (h a) + v) \<and>
         (\<exists>h'. handler_resume (InSub p) h a = Inr (Finish h') \<and> acc (h' a) = acc (h a) - v) \<and>
         (\<exists>h'. handler_resume (InMovRead (Some ''ACC'') p) h a = Inr (Finish h') \<and>
               acc (h' a) = v)"
  using read_src_resume_done [OF assms] assms
  by (auto simp: handler_resume_def write_dest_start_def mov_write_def)

theorem add_sub_mov_unclamped_witness:
  "(\<exists>h'. handler_resume (InAdd (ReadValue 1)) ((\<lambda>_. Node_init \<lparr> acc := 999 \<rparr>)) 0 = Inr (Finish h') \<and>
         acc (h' 0) = 1000) \<and>
   (\<exists>h'. handler_resume (InSub (ReadValue 1)) ((\<lambda>_. Node_init \<lparr> acc := - 999 \<rparr>)) 0 = Inr (Finish h') \<and>
         acc (h' 0) = - 1000) \<and>
   (\<exists>h'. handler_resume (InMovRead (Some ''ACC'') (ReadValue 1000)) (\<lambda>_. Node_init) 0 =
           Inr (Finish h') \<and> acc (h' 0) = 1000)"
  using add_sub_mov_unclamped [of "ReadValue 1" "\<lambda>_. Node_init \<lparr> acc := 999 \<rparr>" 0 1
      "Node_init \<lparr> acc := 999 \<rparr>"]
    add_sub_mov_unclamped [of "ReadValue 1" "\<lambda>_. Node_init \<lparr> acc := - 999 \<rparr>" 0 1
      "Node_init \<lparr> acc := - 999 \<rparr>"]
    add_sub_mov_unclamped [of "ReadValue 1000" "\<lambda>_. Node_init" 0 1000 Node_init]
  by (simp add: read_src_resume_def Node_init_def)

text \<open>
  Claim C2 as stated fails on a fresh node that runs ADD 999, ADD 1: both instructions
  complete and \<open>acc\<close> is 1000.
\<close>

theorem clamp_counterexample:
  "\<exists>h1 h2 h3.
     node_next 1 NotStarted h_add 0 = Some (Inr (InAdd (ReadValue 999), h1)) \<and>
     node_next 1 (Suspended (InAdd (ReadValue 999))) h1 0 =
       Some (Inr (InAdd (ReadValue 1), h2)) \<and>
     node_next 1 (Suspended (InAdd (ReadValue 1))) h2 0 =
       Some (Inr (InAdd (ReadValue 999), h3)) \<and>
     acc (h3 0) = 1000 \<and> \<not> acc (h3 0) \<le> 999"
  by (simp add: h_add_def prog_add_def load_bytecode_def Node_init_def run_defs)

subsection \<open>The order of an ANY read\<close>

lemma read_input_nb_empty:
  "\<not> has_inputs d n \<Longrightarrow> read_input_nb d n = Inr (None, n)"
  by (simp add: read_input_nb_def get_attached_node_def push_mode_def pop_mode_def has_inputs_def)

lemma read_input_nb_value:
  "inputs n d = v # vs \<Longrightarrow>
   read_input_nb d n = Inr (Some v, n \<lparr> inputs := (inputs n)(d := vs), last_port_dir := Some d \<rparr>)"
  by (simp add: read_input_nb_def get_attached_node_def push_mode_def pop_mode_def has_inputs_def
      read_input_def)

lemma any_read_pass_first:
  assumes "find (\<lambda>d. has_inputs d n) ds = Some d"
  shows "any_read_pass ds n =
           Inr (AnyReadValue (hd (inputs n d)),
                n \<lparr> inputs := (inputs n)(d := tl (inputs n d)), last_port_dir := Some d \<rparr>)"
  using assms
proof (induction ds)
  case Nil
  then show ?case by simp
next
  case (Cons e ds)
  show ?case
  proof (cases "has_inputs e n")
    case True
    with Cons.prems have "e = d" by simp
    moreover from True obtain v vs where "inputs n e = v # vs"
      by (cases "inputs n e") (simp_all add: has_inputs_def)
    ultimately show ?thesis by (simp add: read_input_nb_value fun_upd_def)
  next
    case False
    with Cons show ?thesis by (simp add: read_input_nb_empty)
  qed
qed

lemma any_read_pass_none:
  assumes "\<forall>d \<in> set ds. \<not> has_inputs d n"
  shows "any_read_pass ds n = Inr (AnyReadPoll, n)"
  using assms by (induction ds) (simp_all add: read_input_nb_empty)

text \<open>
  Claim C6. The directions are polled in the order UP, DOWN, LEFT, RIGHT. When \<open>d\<close> is
  the first of them with a value waiting, an ANY read (from its start, and likewise
  when it is resumed at its poll after a pass that found nothing) yields the head of
  that queue, has removed it, has set \<open>last_port_dir\<close> to \<open>d\<close> and has touched no other
  queue; resumed once more it returns that value with the READ frame of ANY popped. In
  particular, with values waiting on UP and on LEFT the read yields the UP value, sets
  \<open>last_port_dir\<close> to UP and leaves the LEFT queue as it is.
\<close>

theorem any_read_order:
  "DIRECTIONS = [UP, DOWN, LEFT, RIGHT] \<and>
   (find (\<lambda>d. has_inputs d n) DIRECTIONS = Some d \<longrightarrow>
      (\<exists>n'. read_src_start (Some ''ANY'') n = Inr (AnyReadValue (hd (inputs n d)), n') \<and>
            read_src_resume AnyReadPoll (push_mode READ n) =
              Inr (Inl (AnyReadValue (hd (inputs n d)), n')) \<and>
            last_port_dir n' = Some d \<and>
            inputs n' = (inputs n)(d := tl (inputs n d)) \<and>
            read_src_resume (AnyReadValue (hd (inputs n d))) n' =
              Inr (Inr (hd (inputs n d),
                        n \<lparr> inputs := (inputs n)(d := tl (inputs n d)),
                            last_port_dir := Some d \<rparr>)))) \<and>
   (inputs n UP \<noteq> [] \<and> inputs n LEFT \<noteq> [] \<longrightarrow>
      (\<exists>n'. read_src_start (Some ''ANY'') n = Inr (AnyReadValue (hd (inputs n UP)), n') \<and>
            last_port_dir n' = Some UP \<and> inputs n' LEFT = inputs n LEFT))"
proof (intro conjI impI)
  show "DIRECTIONS = [UP, DOWN, LEFT, RIGHT]" by (simp add: DIRECTIONS_def)
next
  assume f: "find (\<lambda>d. has_inputs d n) DIRECTIONS = Some d"
  have "find (\<lambda>d. has_inputs d (push_mode READ n)) DIRECTIONS = Some d"
    using f by (simp add: has_inputs_def push_mode_def)
  from any_read_pass_first [OF this]
  show "\<exists>n'. read_src_start (Some ''ANY'') n = Inr (AnyReadValue (hd (inputs n d)), n') \<and>
            read_src_resume AnyReadPoll (push_mode READ n) =
              Inr (Inl (AnyReadValue (hd (inputs n d)), n')) \<and>
            last_port_dir n' = Some d \<and>
            inputs n' = (inputs n)(d := tl (inputs n d)) \<and>
            read_src_resume (AnyReadValue (hd (inputs n d))) n' =
              Inr (Inr (hd (inputs n d),
                        n \<lparr> inputs := (inputs n)(d := tl (inputs n d)),
                            last_port_dir := Some d \<rparr>))"
    by (simp add: read_src_start_simps read_src_resume_def push_mode_def pop_mode_def)
next
  assume a: "inputs n UP \<noteq> [] \<and> inputs n LEFT \<noteq> []"
  then have "find (\<lambda>d. has_inputs d (push_mode READ n)) DIRECTIONS = Some UP"
    by (simp add: has_inputs_def push_mode_def DIRECTIONS_def)
  from any_read_pass_first [OF this]
  show "\<exists>n'. read_src_start (Some ''ANY'') n = Inr (AnyReadValue (hd (inputs n UP)), n') \<and>
            last_port_dir n' = Some UP \<and> inputs n' LEFT = inputs n LEFT"
    by (simp add: read_src_start_simps push_mode_def)
qed

theorem any_read_order_witness:
  "find (\<lambda>d. has_inputs d n_up_left) DIRECTIONS = Some UP \<and>
   inputs n_up_left UP = [7] \<and> inputs n_up_left LEFT = [9] \<and>
   (\<exists>n'. read_src_start (Some ''ANY'') n_up_left = Inr (AnyReadValue 7, n') \<and>
         last_port_dir n' = Some UP \<and> inputs n' UP = [] \<and> inputs n' LEFT = [9])"
  using any_read_order [of n_up_left UP]
  by (auto simp: n_up_left_def Node_init_def DIRECTIONS_def has_inputs_def)

subsection \<open>Suspensions per instruction\<close>

lemma get_next_op_acc: "get_next_op n = Inr (ins, n') \<Longrightarrow> acc n' = acc n"
  by (auto simp: get_next_op_def Let_def split: option.splits sum.splits if_splits)

lemma dispatch_finish:
  assumes "dispatch h a = Inr (Finish h')"
  shows "\<exists>opn x y n m. get_next_op (push_mode RUN (h a)) = Inr ((opn, x, y), n) \<and>
           op_table opn = Some m \<and> untaken m (acc (h a))"
proof -
  from assms obtain opn x y n m where
    g: "get_next_op (push_mode RUN (h a)) = Inr ((opn, x, y), n)" and m: "op_table opn = Some m"
    and hs: "handler_start m x y (h(a := n \<lparr> next_iptr := iptr n + 1 \<rparr>)) a = Inr (Finish h')"
    by (auto simp: dispatch_def Let_def split: sum.splits option.splits prod.splits)
  from get_next_op_acc [OF g] have "acc n = acc (h a)" by (simp add: push_mode_def)
  with hs have "untaken m (acc (h a))" by (simp add: handler_start_finish)
  with g m show ?thesis by blast
qed

text \<open>
  Claim C8, as amended. An instruction whose handler returns to \<^verbatim>\<open>run\<close> with no
  suspension at all is a conditional jump whose test fails, and every such jump does
  return with no suspension (so \<^verbatim>\<open>run\<close> dispatches the next instruction within the same
  \<^verbatim>\<open>next\<close>). The handlers of NOP, SWP, SAV, NEG, JMP and of a conditional jump whose
  test holds are suspended exactly once, at their end. The handlers of MOV, ADD, SUB
  and JRO are suspended at least once, or raise.
\<close>

theorem suspension_per_instruction:
  "(dispatch h a = Inr (Finish h') \<longrightarrow>
      (\<exists>opn x y n m. get_next_op (push_mode RUN (h a)) = Inr ((opn, x, y), n) \<and>
         op_table opn = Some m \<and> untaken m (acc (h a)))) \<and>
   (handler_start m x y h a = Inr (Finish h') \<longleftrightarrow> untaken m (acc (h a)) \<and> h' = h) \<and>
   (m \<in> tail_handlers \<and> handler_start m x y h a = Inr (Yield fr h') \<longrightarrow>
      fr = InTail \<and> handler_resume fr h' a = Inr (Finish h')) \<and>
   (m \<notin> tail_handlers \<and> handler_start m x y h a = Inr out \<longrightarrow> (\<exists>fr h''. out = Yield fr h''))"
proof (intro conjI impI)
  assume "dispatch h a = Inr (Finish h')"
  then show "\<exists>opn x y n m. get_next_op (push_mode RUN (h a)) = Inr ((opn, x, y), n) \<and>
         op_table opn = Some m \<and> untaken m (acc (h a))"
    by (rule dispatch_finish)
next
  show "handler_start m x y h a = Inr (Finish h') \<longleftrightarrow> untaken m (acc (h a)) \<and> h' = h"
    by (rule handler_start_finish)
next
  assume a: "m \<in> tail_handlers \<and> handler_start m x y h a = Inr (Yield fr h')"
  then show "fr = InTail" by (blast dest: handler_start_tail)
  then show "handler_resume fr h' a = Inr (Finish h')" by (simp add: handler_resume_def)
next
  assume "m \<notin> tail_handlers \<and> handler_start m x y h a = Inr out"
  then show "\<exists>fr h''. out = Yield fr h''" by (blast dest: handler_start_reading)
qed

theorem suspension_per_instruction_witness:
  "(\<exists>h'. dispatch h_jnz 0 = Inr (Finish h')) \<and>
   (\<exists>n. get_next_op (push_mode RUN (h_jnz 0)) = Inr ((''JNZ'', Some ''L'', None), n)) \<and>
   op_table ''JNZ'' = Some H_jnz \<and> untaken H_jnz (acc (h_jnz 0)) \<and>
   H_nop \<in> tail_handlers \<and> handler_start H_nop None None h_jnz 0 = Inr (Yield InTail h_jnz) \<and>
   handler_resume InTail h_jnz 0 = Inr (Finish h_jnz) \<and>
   H_add \<notin> tail_handlers \<and>
   (\<exists>fr h''. handler_start H_add (Some ''1'') None h_jnz 0 = Inr (Yield fr h''))"
proof -
  have d: "\<exists>h'. dispatch h_jnz 0 = Inr (Finish h')"
    by (simp add: h_jnz_def prog_jnz_def load_bytecode_def Node_init_def run_defs)
  then obtain h' where d': "dispatch h_jnz 0 = Inr (Finish h')" ..
  have n: "handler_start H_nop None None h_jnz 0 = Inr (Yield InTail h_jnz)" by simp
  have ad: "handler_start H_add (Some ''1'') None h_jnz 0 =
      Inr (Yield (InAdd (ReadValue 1)) h_jnz)"
    by (simp add: run_defs)
  have t: "H_nop \<in> tail_handlers" "H_add \<notin> tail_handlers" by (simp_all add: tail_handlers_def)
  have g: "\<exists>n. get_next_op (push_mode RUN (h_jnz 0)) = Inr ((''JNZ'', Some ''L'', None), n)"
    by (simp add: h_jnz_def prog_jnz_def load_bytecode_def Node_init_def run_defs)
  have u: "untaken H_jnz (acc (h_jnz 0))"
    by (simp add: untaken_def h_jnz_def load_bytecode_def Node_init_def)
  from suspension_per_instruction [where h = h_jnz and a = 0 and h' = h_jnz and m = H_nop
      and x = None and y = None and fr = InTail and out = "Yield InTail h_jnz"]
    suspension_per_instruction [where h = h_jnz and a = 0 and h' = h' and m = H_add
      and x = "Some ''1''" and y = None and fr = InTail
      and out = "Yield (InAdd (ReadValue 1)) h_jnz"]
    d' n ad t g u
  show ?thesis by (simp add: op_table_simps)
qed

text \<open>
  Claim C8 as stated fails on a fresh node with the program \<^verbatim>\<open>L: JNZ L\<close>, NOP: the JNZ
  at index 0 is dispatched and returns without a suspension (one turn of the loop of
  \<^verbatim>\<open>run\<close> does not reach a \<^verbatim>\<open>yield\<close>), and the first suspension of the node is the one
  of the NOP at index 1.
\<close>

theorem tail_yield_counterexample:
  "(\<exists>h1. dispatch h_jnz 0 = Inr (Finish h1)) \<and> run_loop 1 h_jnz 0 = None \<and>
   (\<exists>h2. run_loop 2 h_jnz 0 = Some (Inr (InTail, h2)) \<and> iptr (h2 0) = 1)"
  by (simp add: numeral_2_eq_2 h_jnz_def prog_jnz_def load_bytecode_def Node_init_def run_defs)

subsection \<open>JRO\<close>

lemma get_next_op_wrap:
  assumes "ops n = Some os" and "os \<noteq> []" and "int (length os) \<le> next_iptr n"
  shows "get_next_op n = Inr (os ! 0, n \<lparr> next_iptr := 0, iptr := 0 \<rparr>)"
  using assms by (simp add: get_next_op_def py_index_def)

lemma dispatch_jro_next_iptr:
  assumes "dispatch h a = Inr (Yield (InJro p) h1)"
  shows "next_iptr (h1 a) = iptr (h1 a) + 1"
proof -
  from assms obtain opn x y n m where
    hs: "handler_start m x y (h(a := n \<lparr> next_iptr := iptr n + 1 \<rparr>)) a = Inr (Yield (InJro p) h1)"
    by (auto simp: dispatch_def Let_def split: sum.splits option.splits prod.splits)
  then have "reading InJro x (h(a := n \<lparr> next_iptr := iptr n + 1 \<rparr>)) a = Inr (Yield (InJro p) h1)"
    by (cases m) (auto dest: reading_yields cond_jmp_yield)
  from reading_reads [OF this] show ?thesis by (auto simp: reads_def)
qed

lemma resume_jro_yield:
  assumes "handler_resume (InJro p) h a = Inr (Yield fr h')"
  shows "(\<exists>p'. fr = InJro p') \<and> iptr (h' a) = iptr (h a) \<and> next_iptr (h' a) = next_iptr (h a) \<and>
         ops (h' a) = ops (h a)"
  using assms
  by (auto simp: handler_resume_def reads_def split: sum.splits dest!: reads_read_src_resume_yield)

lemma resume_jro_done:
  assumes "ops (h a) = Some os" and "read_src_resume p (h a) = Inr (Inr (v, n))"
  shows "\<exists>h'. handler_resume (InJro p) h a = Inr (Finish h') \<and>
           next_iptr (h' a) = max 0 (min (next_iptr (h a) + v) (int (length os))) \<and>
           iptr (h' a) = iptr (h a) \<and> ops (h' a) = Some os"
  using assms reads_read_src_resume_done [OF assms(2)]
  by (simp add: handler_resume_def jro_tail_def reads_def Let_def)

text \<open>
  Claim C3, as amended. \<^verbatim>\<open>run\<close> has set \<^verbatim>\<open>next_iptr\<close> to \<^verbatim>\<open>iptr + 1\<close> when the handler
  of JRO starts, and the suspensions of the source read leave both alone. When the
  read has delivered \<open>v\<close>, JRO returns with \<^verbatim>\<open>next_iptr\<close> set to \<open>iptr + 1 + v\<close> clamped
  into \<open>[0, len(program)]\<close>, the upper end included: the offset counts from the
  instruction after the JRO, not from the JRO itself. A fetch with
  \<^verbatim>\<open>next_iptr \<ge> len(program)\<close> takes instruction 0.
\<close>

theorem jro_target:
  "(dispatch h a = Inr (Yield (InJro p) h1) \<longrightarrow> next_iptr (h1 a) = iptr (h1 a) + 1) \<and>
   (handler_resume (InJro p) h a = Inr (Yield fr h') \<longrightarrow>
      (\<exists>p'. fr = InJro p') \<and> iptr (h' a) = iptr (h a) \<and> next_iptr (h' a) = next_iptr (h a) \<and>
      ops (h' a) = ops (h a)) \<and>
   (ops (h a) = Some os \<and> next_iptr (h a) = iptr (h a) + 1 \<and>
    read_src_resume p (h a) = Inr (Inr (v, n)) \<longrightarrow>
      (\<exists>h''. handler_resume (InJro p) h a = Inr (Finish h'') \<and>
         next_iptr (h'' a) = max 0 (min (iptr (h a) + 1 + v) (int (length os))) \<and>
         0 \<le> next_iptr (h'' a) \<and> next_iptr (h'' a) \<le> int (length os))) \<and>
   (ops n0 = Some os \<and> os \<noteq> [] \<and> int (length os) \<le> next_iptr n0 \<longrightarrow>
      get_next_op n0 = Inr (os ! 0, n0 \<lparr> next_iptr := 0, iptr := 0 \<rparr>))"
proof (intro conjI impI)
  assume "dispatch h a = Inr (Yield (InJro p) h1)"
  then show "next_iptr (h1 a) = iptr (h1 a) + 1" by (rule dispatch_jro_next_iptr)
next
  assume y: "handler_resume (InJro p) h a = Inr (Yield fr h')"
  from resume_jro_yield [OF y]
  show "\<exists>p'. fr = InJro p'" "iptr (h' a) = iptr (h a)" "next_iptr (h' a) = next_iptr (h a)"
    "ops (h' a) = ops (h a)" by simp_all
next
  assume "ops (h a) = Some os \<and> next_iptr (h a) = iptr (h a) + 1 \<and>
    read_src_resume p (h a) = Inr (Inr (v, n))"
  then show "\<exists>h''. handler_resume (InJro p) h a = Inr (Finish h'') \<and>
         next_iptr (h'' a) = max 0 (min (iptr (h a) + 1 + v) (int (length os))) \<and>
         0 \<le> next_iptr (h'' a) \<and> next_iptr (h'' a) \<le> int (length os)"
    using resume_jro_done [of h a os p v n] by auto
next
  assume "ops n0 = Some os \<and> os \<noteq> [] \<and> int (length os) \<le> next_iptr n0"
  then show "get_next_op n0 = Inr (os ! 0, n0 \<lparr> next_iptr := 0, iptr := 0 \<rparr>)"
    by (simp add: get_next_op_wrap)
qed

theorem jro_target_witness:
  "\<exists>h1 h2. dispatch h_jro 0 = Inr (Yield (InJro (ReadValue 1)) h1) \<and>
     iptr (h1 0) = 0 \<and> next_iptr (h1 0) = 1 \<and> ops (h1 0) = Some (fst prog_jro) \<and>
     read_src_resume (ReadValue 1) (h1 0) = Inr (Inr (1, h1 0)) \<and>
     handler_resume (InJro (ReadValue 1)) h1 0 = Inr (Finish h2) \<and> next_iptr (h2 0) = 2 \<and>
     get_next_op ((h2 0) \<lparr> next_iptr := 3 \<rparr>) =
       Inr ((''JRO'', Some ''1'', None), (h2 0) \<lparr> next_iptr := 0, iptr := 0 \<rparr>)"
proof -
  have d: "\<exists>h1. dispatch h_jro 0 = Inr (Yield (InJro (ReadValue 1)) h1) \<and> iptr (h1 0) = 0 \<and>
      ops (h1 0) = Some (fst prog_jro)"
    by (simp add: h_jro_def prog_jro_def load_bytecode_def Node_init_def run_defs)
  then obtain h1 where d1: "dispatch h_jro 0 = Inr (Yield (InJro (ReadValue 1)) h1)"
    and i1: "iptr (h1 0) = 0" and o1: "ops (h1 0) = Some (fst prog_jro)" by blast
  have r: "read_src_resume (ReadValue 1) (h1 0) = Inr (Inr (1, h1 0))"
    by (simp add: read_src_resume_def)
  from jro_target [where h = h_jro and a = 0 and p = "ReadValue 1" and ?h1.0 = h1
      and fr = InTail and h' = h1 and ?n0.0 = "h1 0" and os = "[]" and v = 0 and n = "h1 0"]
    d1 i1 have n1: "next_iptr (h1 0) = 1" by simp
  have "\<exists>h2. handler_resume (InJro (ReadValue 1)) h1 0 = Inr (Finish h2) \<and>
      next_iptr (h2 0) = 2"
    using jro_target [where h = h1 and a = 0 and p = "ReadValue 1" and os = "fst prog_jro"
      and v = 1 and n = "h1 0" and ?h1.0 = h1 and fr = InTail and h' = h1 and ?n0.0 = "h1 0"]
      o1 n1 i1 r
    by (auto simp: prog_jro_def)
  then obtain h2 where f: "handler_resume (InJro (ReadValue 1)) h1 0 = Inr (Finish h2)"
    and n2: "next_iptr (h2 0) = 2"
    by blast
  have o2: "ops (h2 0) = Some (fst prog_jro)"
    using resume_jro_done [of h1 0 "fst prog_jro" "ReadValue 1" 1 "h1 0"] o1 r f by simp
  from jro_target [where ?n0.0 = "(h2 0) \<lparr> next_iptr := 3 \<rparr>" and os = "fst prog_jro"
      and h = h1 and a = 0 and p = "ReadValue 1" and ?h1.0 = h1 and fr = InTail and h' = h1
      and v = 1 and n = "h1 0"] o2
  have "get_next_op ((h2 0) \<lparr> next_iptr := 3 \<rparr>) =
       Inr ((''JRO'', Some ''1'', None), (h2 0) \<lparr> next_iptr := 0, iptr := 0 \<rparr>)"
    by (simp add: prog_jro_def)
  with d1 i1 n1 o1 r f n2 show ?thesis by blast
qed

text \<open>
  Claim C3 as stated fails on a fresh node with the program JRO 1, NOP, NOP: the JRO is
  at index 0 and reads the offset 1, the claim's target is \<open>0 + 1\<close>, and the instruction
  dispatched after the JRO is the one at index 2.
\<close>

theorem jro_counterexample:
  "\<exists>h1 h2.
     node_next 1 NotStarted h_jro 0 = Some (Inr (InJro (ReadValue 1), h1)) \<and> iptr (h1 0) = 0 \<and>
     node_next 1 (Suspended (InJro (ReadValue 1))) h1 0 = Some (Inr (InTail, h2)) \<and>
     iptr (h2 0) = 2 \<and> iptr (h2 0) \<noteq> max 0 (min (iptr (h1 0) + 1) 3)"
  by (simp add: h_jro_def prog_jro_def load_bytecode_def Node_init_def run_defs)

section \<open>The grid\<close>

lemma cells:
  "concat (map (\<lambda>y. map (\<lambda>x. (y, x)) [0..<MAX_NODES_X]) [0..<MAX_NODES_Y]) =
     [(0, 0), (0, 1), (0, 2), (0, 3), (1, 0), (1, 1), (1, 2), (1, 3),
      (2, 0), (2, 1), (2, 2), (2, 3)]"
  by (simp add: MAX_NODES_X_def MAX_NODES_Y_def upt_conv_Cons)

lemma attach_node_ops [simp]: "ops (attach_node a b d bidi h x) = ops (h x)"
  by (simp add: attach_node_def Let_def)

lemma wire_cell_ops [simp]: "ops (wire_cell c h x) = ops (h x)"
  by (cases c) (simp add: wire_cell_def Let_def)

lemma fold_wire_ops [simp]: "ops (fold wire_cell cs h x) = ops (h x)"
  by (induction cs arbitrary: h) simp_all

lemma grid_ops [simp]: "ops (heap TIS_init x) = None"
  by (simp add: TIS_init_def Node_init_def)

lemma grid_fields [simp]:
  "buffered_input TIS_init = Map.empty" "num_buffered_inputs TIS_init = 0"
  "node_runs TIS_init = []" "cursor TIS_init = 0"
  by (simp_all add: TIS_init_def)

lemma grid_nodes: "nodes TIS_init = [0, 1, 2, 3, 4, 5, 6, 7, 8, 9, 10, 11]"
  by (simp add: TIS_init_def MAX_NODES_X_def MAX_NODES_Y_def upt_conv_Cons)

lemma attach_node_next_iptr [simp]:
  "next_iptr (attach_node a b d bidi h x) = next_iptr (h x)"
  by (simp add: attach_node_def Let_def)

lemma wire_cell_next_iptr [simp]: "next_iptr (wire_cell c h x) = next_iptr (h x)"
  by (cases c) (simp add: wire_cell_def Let_def)

lemma fold_wire_next_iptr [simp]: "next_iptr (fold wire_cell cs h x) = next_iptr (h x)"
  by (induction cs arbitrary: h) simp_all

lemma grid_next_iptr [simp]: "next_iptr (heap TIS_init x) = 0"
  by (simp add: TIS_init_def Node_init_def)

lemma attach_node_inputs [simp]: "inputs (attach_node a b d bidi h x) = inputs (h x)"
  by (simp add: attach_node_def Let_def)

lemma wire_cell_inputs [simp]: "inputs (wire_cell c h x) = inputs (h x)"
  by (cases c) (simp add: wire_cell_def Let_def)

lemma fold_wire_inputs [simp]: "inputs (fold wire_cell cs h x) = inputs (h x)"
  by (induction cs arbitrary: h) simp_all

lemma grid_inputs [simp]: "inputs (heap TIS_init x) = (\<lambda>_. [])"
  by (simp add: TIS_init_def Node_init_def)

lemma grid_loaded_next_iptr: "next_iptr (heap (grid_loaded c) b) = 0"
  by (simp add: grid_loaded_def load_bytecode_def)

lemma grid_loaded_scheduled:
  "fst c \<noteq> [] \<Longrightarrow>
   filter (\<lambda>a. loaded (heap (grid_loaded c) a)) (nodes (grid_loaded c)) = [0]"
  by (simp add: grid_loaded_def grid_nodes loaded_def load_bytecode_def)

text \<open>The three nodes in the upper left corner of the grid, as \<^verbatim>\<open>TIS.__init__\<close> wires them.\<close>

lemma grid_0:
  "heap TIS_init 0 = Node_init \<lparr> attached_nodes := [RIGHT \<mapsto> 1, DOWN \<mapsto> 4] \<rparr>"
  unfolding TIS_init_def cells
  by (simp add: wire_cell_def attach_node_def MAX_NODES_X_def MAX_NODES_Y_def Node_init_def
      Let_def)

lemma grid_1:
  "heap TIS_init (Suc 0) =
     Node_init \<lparr> attached_nodes := [LEFT \<mapsto> 0, RIGHT \<mapsto> 2, DOWN \<mapsto> 5] \<rparr>"
  unfolding TIS_init_def cells
  by (simp add: wire_cell_def attach_node_def MAX_NODES_X_def MAX_NODES_Y_def Node_init_def
      Let_def numeral_2_eq_2)

lemma grid_4:
  "heap TIS_init 4 = Node_init \<lparr> attached_nodes := [UP \<mapsto> 0, RIGHT \<mapsto> 5, DOWN \<mapsto> 8] \<rparr>"
  unfolding TIS_init_def cells
  by (simp add: wire_cell_def attach_node_def MAX_NODES_X_def MAX_NODES_Y_def Node_init_def
      Let_def)

lemma grid_with_runs:
  "fst compiled \<noteq> [] \<Longrightarrow> node_runs (grid_with compiled) = [(0, NotStarted)]"
  by (simp add: grid_with_def grid_loaded_def run_start_def grid_nodes loaded_def
      load_bytecode_def)

lemmas grid_defs = grid_with_def grid_loaded_def run_start_def grid_nodes loaded_def load_bytecode_def
  grid_0 grid_1 grid_4 Node_init_def

lemmas tis_defs = tis_next_def inject_def write_dest_start_def write_dest_resume_def
  write_output_start_def write_output_loop_def write_output_nb_def hand_over_def
  get_attached_node_def
  write_input_def has_inputs_def label_to_direction_def DIRECTIONS_def mode_of_def

subsection \<open>A write to an edge of the grid\<close>

text \<open>
  Claim C4 (a defect of the code). Node 0 of the grid has no neighbour above it. With
  the program MOV 1, UP followed by NOP its first \<^verbatim>\<open>next\<close> suspends the MOV at the
  value of its source; the second \<^verbatim>\<open>next\<close> runs the blocking write to UP, which returns
  at once (\<^verbatim>\<open>pass\<close>, then \<^verbatim>\<open>return\<close>, under the comment \<^verbatim>\<open>Deadlock\<close>), completes the
  MOV and dispatches the NOP: the node is suspended in the NOP at index 1 and its mode
  is RUN, not WRITE.
\<close>

theorem edge_write_completes:
  "attached_nodes (heap (grid_with prog_edge) 0) UP = None \<and>
   (\<exists>t1 t2.
      tis_next 1 (grid_with prog_edge) = Some (Inr t1) \<and>
      node_runs t1 = [(0, Suspended (InMovRead (Some ''UP'') (ReadValue 1)))] \<and>
      tis_next 1 t1 = Some (Inr t2) \<and>
      node_runs t2 = [(0, Suspended InTail)] \<and>
      iptr (heap t2 0) = 1 \<and> mode_of (heap t2 0) = Inr RUN)"
  by (simp add: prog_edge_def grid_defs tis_defs run_defs)

section \<open>Two values in one queue\<close>

text \<open>
  The non-blocking \<^verbatim>\<open>_write_output\<close> to a direction with a plain node attached: the
  value is appended to the peer's queue whatever the queue holds, the queue is tested
  only afterwards and is never empty then, so the generator returns without yielding
  \<^verbatim>\<open>True\<close>.
\<close>

lemma write_output_nb_plain:
  assumes "attached_nodes (h a) d = Some p" and "\<not> is_log_node (h p)"
  shows "\<exists>h'. write_output_nb d v h a = Inr (False, h') \<and>
           inputs (h' p) (opposite_directions d) = inputs (h p) (opposite_directions d) @ [v]"
  using assms
  by (cases "p = a")
    (simp_all add: write_output_nb_def get_attached_node_def hand_over_def write_input_def
      push_mode_def pop_mode_def has_inputs_def Let_def)

text \<open>
  Claim C1 (a defect of the code). \<^verbatim>\<open>_write_output\<close> calls \<^verbatim>\<open>node.write_input\<close> before it
  tests \<^verbatim>\<open>node.has_inputs\<close>, so nothing keeps a second value out of a queue that holds
  one. On the grid with MOV 1, ANY in node 0 and nothing else loaded, three \<^verbatim>\<open>next\<close>
  calls on \<^verbatim>\<open>TIS.run\<close> leave two values in the queue UP of node 4 (the node below node
  0) and two in the queue LEFT of node 1, with node 0 still suspended in its MOV. On
  the grid \<open>grid_pair\<close>, where no MOV to ANY occurs, the fifth \<^verbatim>\<open>next\<close> appends the value
  that node 0 writes to DOWN to the queue UP of node 4, which holds the value that the
  host injected.
\<close>

theorem write_fills_full_queue:
  "(\<exists>t. tis_steps 1 3 (grid_with prog_any) = Some (Inr t) \<and>
        inputs (heap t 4) UP = [1, 1] \<and> inputs (heap t 1) LEFT = [1, 1] \<and>
        \<not> length (inputs (heap t 4) UP) \<le> 1 \<and>
        node_runs t = [(0, Suspended (InMovWrite (AnyWritePoll 1)))]) \<and>
   (\<exists>t1 t2 t3 t4 t5.
        tis_next 1 (run_start grid_pair) = Some (Inr t1) \<and> tis_next 1 t1 = Some (Inr t2) \<and>
        tis_next 1 t2 = Some (Inr t3) \<and> tis_next 1 t3 = Some (Inr t4) \<and>
        inputs (heap t3 4) UP = [] \<and> inputs (heap t4 4) UP = [5] \<and>
        tis_next 1 t4 = Some (Inr t5) \<and>
        inputs (heap t5 4) UP = [5, 1] \<and> \<not> length (inputs (heap t5 4) UP) \<le> 1)"
proof
  show "\<exists>t. tis_steps 1 3 (grid_with prog_any) = Some (Inr t) \<and>
        inputs (heap t 4) UP = [1, 1] \<and> inputs (heap t 1) LEFT = [1, 1] \<and>
        \<not> length (inputs (heap t 4) UP) \<le> 1 \<and>
        node_runs t = [(0, Suspended (InMovWrite (AnyWritePoll 1)))]"
    by (simp add: numeral_3_eq_3 prog_any_def grid_defs tis_defs run_defs)
  show "\<exists>t1 t2 t3 t4 t5.
        tis_next 1 (run_start grid_pair) = Some (Inr t1) \<and> tis_next 1 t1 = Some (Inr t2) \<and>
        tis_next 1 t2 = Some (Inr t3) \<and> tis_next 1 t3 = Some (Inr t4) \<and>
        inputs (heap t3 4) UP = [] \<and> inputs (heap t4 4) UP = [5] \<and>
        tis_next 1 t4 = Some (Inr t5) \<and>
        inputs (heap t5 4) UP = [5, 1] \<and> \<not> length (inputs (heap t5 4) UP) \<le> 1"
    by (simp add: grid_pair_def buffer_input_def prog_nop_send_def
        prog_left_def grid_defs tis_defs run_defs read_input_start_def read_input_loop_def
        read_input_def)
qed

section \<open>A step of a node changes no register of another node\<close>

lemma same_regs_refl [simp]: "same_regs n n"
  by (simp add: same_regs_def)

lemma same_regs_trans: "same_regs n n' \<Longrightarrow> same_regs n' n'' \<Longrightarrow> same_regs n n''"
  by (simp add: same_regs_def)

lemma owns_refl [simp]: "owns n n"
  by (simp add: owns_def)

lemma owns_trans: "owns n n' \<Longrightarrow> owns n' n'' \<Longrightarrow> owns n n''"
  by (simp add: owns_def)

lemma same_regs_owns: "same_regs n n' \<Longrightarrow> owns n n'"
  by (simp add: same_regs_def owns_def)

lemma reads_owns: "reads n n' \<Longrightarrow> owns n n'"
  by (simp add: reads_def owns_def)

lemma frame_refl [simp]: "frame a h h"
  by (simp add: frame_def)

lemma frame_trans: "frame a h h' \<Longrightarrow> frame a h' h'' \<Longrightarrow> frame a h h''"
  unfolding frame_def by (blast intro: same_regs_trans owns_trans)

lemma frame_upd: "owns (h a) n \<Longrightarrow> frame a h (h(a := n))"
  by (simp add: frame_def)

lemma frame_upd2: "frame a h h' \<Longrightarrow> owns (h' a) n \<Longrightarrow> frame a h (h'(a := n))"
  by (auto simp: frame_def intro: owns_trans)

lemma owns_push [simp]: "owns n (push_mode m n)"
  by (simp add: owns_def push_mode_def)

lemma owns_pop: "pop_mode n = Inr n' \<Longrightarrow> owns n n'"
  by (auto simp: owns_def pop_mode_def split: if_splits)

lemma write_input_regs [simp]: "same_regs n (write_input d v n)"
  by (simp add: same_regs_def write_input_def)

lemma frame_pop: "pop_mode (h a) = Inr n \<Longrightarrow> frame a h (h(a := n))"
  by (simp add: frame_upd owns_pop)

lemma frame_write_output_loop:
  "write_output_loop p od h a = Inr (pos, h') \<Longrightarrow> frame a h h'"
  by (auto simp: write_output_loop_def split: if_splits sum.splits intro: frame_pop)

lemma frame_hand_over: "frame a h (hand_over p d v h a)"
  by (auto simp: frame_def owns_def same_regs_def hand_over_def write_input_def Let_def)

lemma frame_push: "frame a h (h(a := push_mode m (h a)))"
  by (simp add: frame_upd)

lemma frame_write_output_start:
  assumes "write_output_start dopt v h a = Inr (pos, h')"
  shows "frame a h h'"
proof (cases dopt)
  case None
  with assms show ?thesis by (simp add: write_output_start_def get_attached_node_def Let_def)
next
  case (Some d)
  let ?h1 = "h(a := push_mode WRITE (h a))"
  show ?thesis
  proof (cases "attached_nodes (?h1 a) d")
    case None
    with assms Some have "h' = ?h1"
      by (simp add: write_output_start_def get_attached_node_def Let_def)
    then show ?thesis by (simp add: frame_push)
  next
    case (Some p)
    with assms \<open>dopt = Some d\<close>
    have "write_output_loop p (opposite_directions d) (hand_over p d v ?h1 a) a = Inr (pos, h')"
      by (simp add: write_output_start_def get_attached_node_def Let_def)
    from frame_write_output_loop [OF this] show ?thesis
      by (blast intro: frame_trans frame_push frame_hand_over)
  qed
qed

lemma frame_write_output_nb:
  assumes "write_output_nb d v h a = Inr (b, h')"
  shows "frame a h h'"
proof -
  let ?h1 = "h(a := push_mode WRITE (h a))"
  show ?thesis
  proof (cases "attached_nodes (?h1 a) d")
    case None
    with assms obtain n where "pop_mode (?h1 a) = Inr n" "h' = ?h1(a := n)"
      by (auto simp: write_output_nb_def get_attached_node_def Let_def split: sum.splits)
    then show ?thesis
      using frame_trans [OF frame_push frame_pop] by blast
  next
    case (Some p)
    with assms obtain n where "pop_mode (hand_over p d v ?h1 a a) = Inr n"
      "h' = (hand_over p d v ?h1 a)(a := n)"
      by (auto simp: write_output_nb_def get_attached_node_def Let_def split: sum.splits)
    then show ?thesis
      using frame_trans [OF frame_trans [OF frame_push frame_hand_over] frame_pop] by blast
  qed
qed

lemma frame_any_write_pass:
  "any_write_pass ds v h a = Inr (pos, h') \<Longrightarrow> frame a h h'"
proof (induction ds arbitrary: h)
  case Nil
  then show ?case by simp
next
  case (Cons d ds)
  from Cons.prems obtain b h1 where w: "write_output_nb d v h a = Inr (b, h1)"
    by (auto split: sum.splits)
  note f1 = frame_write_output_nb [OF w]
  show ?case
  proof (cases b)
    case True
    with Cons.prems w obtain n where "pop_mode (h1 a) = Inr n" "h' = h1(a := n)"
      by (auto split: sum.splits)
    with f1 show ?thesis using frame_trans [OF _ frame_pop] by blast
  next
    case False
    with Cons.prems w have "any_write_pass ds v h1 a = Inr (pos, h')" by simp
    from Cons.IH [OF this] f1 show ?thesis by (rule frame_trans [rotated])
  qed
qed

lemma write_dest_start_simps:
  "write_dest_start (Some ''ACC'') v h a = Inr (None, h(a := (h a) \<lparr> acc := v \<rparr>))"
  "write_dest_start (Some ''NIL'') v h a = Inr (None, h)"
  "write_dest_start (Some ''UP'') v h a = write_output_start (Some UP) v h a"
  "write_dest_start (Some ''DOWN'') v h a = write_output_start (Some DOWN) v h a"
  "write_dest_start (Some ''LEFT'') v h a = write_output_start (Some LEFT) v h a"
  "write_dest_start (Some ''RIGHT'') v h a = write_output_start (Some RIGHT) v h a"
  "write_dest_start (Some ''ANY'') v h a =
     any_write_pass DIRECTIONS v (h(a := push_mode WRITE (h a))) a"
  "write_dest_start (Some ''LAST'') v h a = write_output_start (last_port_dir (h a)) v h a"
  by (simp_all add: write_dest_start_def label_to_direction_def)

lemma write_dest_start_other:
  "dest \<notin> dest_keywords \<Longrightarrow> write_dest_start dest v h a = Inl AssertionError"
  by (simp add: write_dest_start_def dest_keywords_def)

lemma frame_acc: "frame a h (h(a := (h a) \<lparr> acc := v \<rparr>))"
  by (simp add: frame_upd owns_def)

lemma frame_any_write_push:
  "any_write_pass ds v (h(a := push_mode m (h a))) a = Inr (pos, h') \<Longrightarrow> frame a h h'"
  using frame_trans [OF frame_push frame_any_write_pass] by blast

lemma frame_write_dest_start:
  assumes "write_dest_start dest v h a = Inr (pos, h')"
  shows "frame a h h'"
proof (cases "dest \<in> dest_keywords")
  case True
  with assms show ?thesis
    unfolding dest_keywords_def
    by (auto simp: write_dest_start_simps frame_acc
        dest: frame_write_output_start frame_any_write_push)
next
  case False
  with assms show ?thesis by (simp add: write_dest_start_other)
qed

lemma frame_write_dest_resume:
  "write_dest_resume p h a = Inr (pos, h') \<Longrightarrow> frame a h h'"
  by (cases p) (auto simp: write_dest_resume_def
      dest: frame_write_output_loop frame_any_write_pass)

lemma frame_mov_write:
  "mov_write r = Inr out \<Longrightarrow> \<exists>pos. r = Inr (pos, heap_of out)"
  by (auto simp: mov_write_def split: sum.splits option.splits)

lemma owns_jmp: "jmp l n = Inr n' \<Longrightarrow> owns n n'"
  by (auto simp: jmp_def owns_def split: option.splits)

lemma owns_jro_tail: "jro_tail v n = Inr n' \<Longrightarrow> owns n n'"
  by (auto simp: jro_tail_def owns_def Let_def split: option.splits)

lemma frame_jmp: "jmp l (h a) = Inr n \<Longrightarrow> frame a h (h(a := n))"
  by (simp add: frame_upd owns_jmp)

lemma frame_cond_jmp: "cond_jmp c l h a = Inr out \<Longrightarrow> frame a h (heap_of out)"
  by (auto simp: cond_jmp_def frame_jmp split: if_splits sum.splits)

lemma frame_reading: "reading fr src h a = Inr out \<Longrightarrow> frame a h (heap_of out)"
  by (auto simp: reading_def split: sum.splits
      intro!: frame_upd reads_owns dest: reads_read_src_start)

lemma frame_handler_start: "handler_start m x y h a = Inr out \<Longrightarrow> frame a h (heap_of out)"
  by (cases m) (auto dest: frame_cond_jmp frame_reading intro!: frame_upd simp: owns_def)

lemma frame_read_resume_yield:
  "read_src_resume p (h a) = Inr (Inl (p', n)) \<Longrightarrow> frame a h (h(a := n))"
  by (blast intro: frame_upd reads_owns reads_read_src_resume_yield)

lemma frame_read_resume_done:
  "read_src_resume p (h a) = Inr (Inr (v, n)) \<Longrightarrow> frame a h (h(a := n))"
  by (blast intro: frame_upd reads_owns reads_read_src_resume_done)

lemma frame_handler_resume:
  assumes "handler_resume fr h a = Inr out"
  shows "frame a h (heap_of out)"
proof (cases fr)
  case InTail
  with assms show ?thesis by (auto simp: handler_resume_def)
next
  case (InMovRead dest p)
  with assms show ?thesis
    by (auto simp: handler_resume_def split: sum.splits prod.splits
        dest!: frame_mov_write frame_read_resume_yield frame_read_resume_done
        dest: frame_write_dest_start intro: frame_trans)
next
  case (InMovWrite p)
  with assms show ?thesis
    by (auto simp: handler_resume_def dest!: frame_mov_write dest: frame_write_dest_resume)
next
  case (InAdd p)
  with assms show ?thesis
    by (auto simp: handler_resume_def split: sum.splits prod.splits
        dest!: reads_read_src_resume_yield reads_read_src_resume_done
        intro!: frame_upd simp: reads_def owns_def)
next
  case (InSub p)
  with assms show ?thesis
    by (auto simp: handler_resume_def split: sum.splits prod.splits
        dest!: reads_read_src_resume_yield reads_read_src_resume_done
        intro!: frame_upd simp: reads_def owns_def)
next
  case (InJro p)
  with assms show ?thesis
    by (auto simp: handler_resume_def split: sum.splits prod.splits
        dest!: reads_read_src_resume_yield reads_read_src_resume_done owns_jro_tail
        intro!: frame_upd simp: reads_def owns_def)
qed

lemma owns_get_next_op:
  assumes "get_next_op n = Inr (ins, n')"
  shows "owns n (n' \<lparr> next_iptr := iptr n' + 1 \<rparr>)"
  using assms
  by (auto simp: get_next_op_def py_index_def owns_def Let_def
      split: option.splits sum.splits if_splits)

lemma frame_dispatch:
  assumes "dispatch h a = Inr out"
  shows "frame a h (heap_of out)"
proof -
  from assms obtain opn x y n m where
    g: "get_next_op (push_mode RUN (h a)) = Inr ((opn, x, y), n)"
    and hs: "handler_start m x y (h(a := n \<lparr> next_iptr := iptr n + 1 \<rparr>)) a = Inr out"
    by (auto simp: dispatch_def Let_def split: sum.splits option.splits prod.splits)
  from owns_get_next_op [OF g] have "owns (h a) (n \<lparr> next_iptr := iptr n + 1 \<rparr>)"
    by (blast intro: owns_trans owns_push)
  then have "frame a h (h(a := n \<lparr> next_iptr := iptr n + 1 \<rparr>))" by (rule frame_upd)
  with frame_handler_start [OF hs] show ?thesis by (blast intro: frame_trans)
qed

lemma frame_run_loop:
  "run_loop k h a = Some (Inr (fr, h')) \<Longrightarrow> frame a h h'"
proof (induction k arbitrary: h)
  case 0
  then show ?case by simp
next
  case (Suc k)
  from Suc.prems obtain out where d: "dispatch h a = Inr out"
    by (auto split: sum.splits)
  note f = frame_dispatch [OF d]
  show ?case
  proof (cases out)
    case (Yield fr1 h1)
    with Suc.prems d f show ?thesis by simp
  next
    case (Finish h1)
    with Suc.prems d obtain n where p: "pop_mode (h1 a) = Inr n"
      and r: "run_loop k (h1(a := n)) a = Some (Inr (fr, h'))"
      by (auto split: sum.splits)
    from f Finish have "frame a h h1" by simp
    with frame_pop [of h1 a n] p Suc.IH [OF r] show ?thesis by (blast intro: frame_trans)
  qed
qed

lemma frame_node_next:
  assumes "node_next k g h a = Some (Inr (fr, h'))"
  shows "frame a h h'"
proof (cases g)
  case NotStarted
  with assms show ?thesis by (simp add: node_next_def frame_run_loop)
next
  case (Suspended f0)
  with assms obtain out where r: "handler_resume f0 h a = Inr out"
    by (auto simp: node_next_def split: sum.splits)
  note f = frame_handler_resume [OF r]
  show ?thesis
  proof (cases out)
    case (Yield fr1 h1)
    with assms Suspended r f show ?thesis by (simp add: node_next_def)
  next
    case (Finish h1)
    with assms Suspended r obtain n where p: "pop_mode (h1 a) = Inr n"
      and l: "run_loop k (h1(a := n)) a = Some (Inr (fr, h'))"
      by (auto simp: node_next_def split: sum.splits)
    from f Finish have "frame a h h1" by simp
    with frame_pop [of h1 a n] p frame_run_loop [OF l] show ?thesis
      by (blast intro: frame_trans)
  qed
qed

section \<open>The scheduler\<close>

lemma same_regs_inject_first:
  "inject_first q n = (q', n', b) \<Longrightarrow> same_regs n n'"
  by (induction q arbitrary: q' n' b) (auto split: if_splits prod.splits)

lemma inject_fields:
  assumes "inject t a = Inr t'"
  shows "node_runs t' = node_runs t" "cursor t' = cursor t" "nodes t' = nodes t"
    "\<forall>b. same_regs (heap t b) (heap t' b)"
  using assms
  by (auto simp: inject_def split: option.splits sum.splits if_splits prod.splits
      dest: same_regs_inject_first)

text \<open>The node that the next \<^verbatim>\<open>next\<close> on \<^verbatim>\<open>TIS.run\<close> advances.\<close>

lemma tis_next_effect:
  assumes "tis_next k t = Some (Inr t')"
  shows "\<exists>a \<in> set (map fst (node_runs t)).
           map fst (node_runs t') = map fst (node_runs t) \<and> nodes t' = nodes t \<and>
           frame a (heap t) (heap t')"
proof -
  from assms have ne: "node_runs t \<noteq> []" by (auto simp: tis_next_def split: if_splits)
  define c where "c = (if cursor t < length (node_runs t) then cursor t else 0)"
  define a where "a = fst (node_runs t ! c)"
  define g where "g = snd (node_runs t ! c)"
  from ne have c: "c < length (node_runs t)" by (simp add: c_def)
  then have a: "a \<in> set (map fst (node_runs t))" by (simp add: a_def)
  from assms ne obtain t1 fr h' where i: "inject t a = Inr t1"
    and n: "node_next k g (heap t1) a = Some (Inr (fr, h'))"
    and t': "t' = t1 \<lparr> heap := h', node_runs := (node_runs t1)[c := (a, Suspended fr)],
                      cursor := c + 1 \<rparr>"
    by (auto simp: tis_next_def Let_def c_def a_def g_def split: sum.splits option.splits)
  note f = inject_fields [OF i]
  have "frame a (heap t) (heap t1)"
    using f(4) by (simp add: frame_def same_regs_owns)
  with frame_node_next [OF n] have "frame a (heap t) h'" by (blast intro: frame_trans)
  moreover have "map fst (node_runs t') = map fst (node_runs t)"
    using t' f(1) c by (simp add: map_update a_def) (metis list_update_id map_update)
  moreover have "nodes t' = nodes t" using t' f(3) by simp
  ultimately show ?thesis using a t' by auto
qed

lemma fetch_ok_loaded:
  assumes "loaded n" and "0 \<le> next_iptr n"
  shows "fetch_ok n"
proof -
  from assms(1) obtain os where os: "ops n = Some os" "os \<noteq> []"
    by (auto simp: loaded_def split: option.splits)
  let ?j = "if int (length os) \<le> next_iptr n then 0 else next_iptr n"
  let ?n' = "(push_mode RUN n) \<lparr> next_iptr := ?j, iptr := ?j \<rparr>"
  have "get_next_op (push_mode RUN n) = Inr (os ! nat (iptr ?n'), ?n')"
    using os assms(2) by (simp add: get_next_op_def py_index_def push_mode_def Let_def)
  moreover have "0 \<le> iptr ?n'" "iptr ?n' < int (length os)"
    using os assms(2) by simp_all
  ultimately show ?thesis
    unfolding fetch_ok_def using os(1) by blast
qed

lemma frame_loaded: "frame a h h' \<Longrightarrow> loaded (h' b) = loaded (h b)"
  by (cases "b = a") (auto simp: frame_def owns_def same_regs_def loaded_def)

lemma frame_next_iptr: "frame a h h' \<Longrightarrow> 0 \<le> next_iptr (h b) \<Longrightarrow> 0 \<le> next_iptr (h' b)"
  by (cases "b = a") (auto simp: frame_def owns_def same_regs_def)

lemma frame_same_regs: "frame a h h' \<Longrightarrow> b \<noteq> a \<Longrightarrow> same_regs (h b) (h' b)"
  by (simp add: frame_def)

lemma reach_invariant:
  assumes "reach t0 t" and "\<forall>b. 0 \<le> next_iptr (heap t0 b)"
  shows "map fst (node_runs t) = filter (\<lambda>a. loaded (heap t0 a)) (nodes t0) \<and>
         nodes t = nodes t0 \<and>
         (\<forall>b. loaded (heap t b) = loaded (heap t0 b)) \<and>
         (\<forall>b. 0 \<le> next_iptr (heap t b)) \<and>
         (\<forall>b. b \<notin> fst ` set (node_runs t) \<longrightarrow> same_regs (heap t0 b) (heap t b))"
  using assms
proof (induction rule: reach.induct)
  case start
  then show ?case by (simp add: run_start_def comp_def)
next
  case (step t k t')
  then have IH: "map fst (node_runs t) = filter (\<lambda>a. loaded (heap t0 a)) (nodes t0)"
    "nodes t = nodes t0" "\<forall>b. loaded (heap t b) = loaded (heap t0 b)"
    "\<forall>b. 0 \<le> next_iptr (heap t b)"
    "\<forall>b. b \<notin> fst ` set (node_runs t) \<longrightarrow> same_regs (heap t0 b) (heap t b)"
    by simp_all
  from tis_next_effect [OF step.hyps(2)] obtain a where a: "a \<in> fst ` set (node_runs t)"
    and r: "map fst (node_runs t') = map fst (node_runs t)" and n: "nodes t' = nodes t"
    and f: "frame a (heap t) (heap t')" by auto
  from r have rs: "fst ` set (node_runs t') = fst ` set (node_runs t)"
    by (metis list.set_map)
  have 5: "\<forall>b. b \<notin> fst ` set (node_runs t') \<longrightarrow> same_regs (heap t0 b) (heap t' b)"
  proof (intro allI impI)
    fix b assume b: "b \<notin> fst ` set (node_runs t')"
    with rs a have "b \<noteq> a" by auto
    from frame_same_regs [OF f this] IH(5) b rs show "same_regs (heap t0 b) (heap t' b)"
      by (auto intro: same_regs_trans)
  qed
  have 3: "\<forall>b. loaded (heap t' b) = loaded (heap t0 b)"
    using IH(3) frame_loaded [OF f] by simp
  have 4: "\<forall>b. 0 \<le> next_iptr (heap t' b)"
    using IH(4) frame_next_iptr [OF f] by blast
  from IH(1,2) r n 3 4 5 show ?case by simp
qed

section \<open>Host injection\<close>

lemma inject_first_spec:
  assumes "inject_first q n = (q', n', b)"
  shows "(\<not> b \<and> q' = q \<and> n' = n) \<or>
         (b \<and> (\<exists>pre d v vs post.
                 q = pre @ (d, v # vs) # post \<and> q' = pre @ (d, vs) # post \<and>
                 inputs n d = [] \<and> n' = write_input d v n))"
  using assms
proof (induction q arbitrary: q' n' b)
  case Nil
  then show ?case by simp
next
  case (Cons e q)
  obtain d vs where e: "e = (d, vs)" by (cases e)
  show ?case
  proof (cases "vs \<noteq> [] \<and> \<not> has_inputs d n")
    case True
    then obtain v ws where vs: "vs = v # ws" by (cases vs) auto
    from True Cons.prems e vs have "b" "q' = (d, ws) # q" "n' = write_input d v n"
      by auto
    moreover from True have "inputs n d = []" by (simp add: has_inputs_def)
    ultimately have "b \<and> (e # q = [] @ (d, v # ws) # q \<and> q' = [] @ (d, ws) # q \<and>
        inputs n d = [] \<and> n' = write_input d v n)"
      using e vs by simp
    then show ?thesis by blast
  next
    case False
    obtain r m c where r: "inject_first q n = (r, m, c)" by (cases "inject_first q n")
    with False Cons.prems e have eq: "q' = e # r" "n' = m" "b = c"
      by (auto split: if_splits)
    from Cons.IH [OF r] show ?thesis
    proof
      assume "\<not> c \<and> r = q \<and> m = n"
      with eq show ?thesis by simp
    next
      assume "c \<and> (\<exists>pre d v vs post. q = pre @ (d, v # vs) # post \<and>
          r = pre @ (d, vs) # post \<and> inputs n d = [] \<and> m = write_input d v n)"
      then obtain pre d' v vs' post where "c" "q = pre @ (d', v # vs') # post"
        "r = pre @ (d', vs') # post" "inputs n d' = []" "m = write_input d' v n" by blast
      with eq have "b \<and> (e # q = (e # pre) @ (d', v # vs') # post \<and>
          q' = (e # pre) @ (d', vs') # post \<and> inputs n d' = [] \<and> n' = write_input d' v n)"
        by simp
      then show ?thesis by blast
    qed
  qed
qed

lemma buffered_count:
  "sum_list (map (\<lambda>e. length (snd e)) (filter (\<lambda>e. fst e = x) (pre @ (d, v # vs) # post))) =
   sum_list (map (\<lambda>e. length (snd e)) (filter (\<lambda>e. fst e = x) (pre @ (d, vs) # post))) +
     (if x = d then 1 else 0)"
  by simp

lemma inject_spec:
  assumes "inject t a = Inr t'"
  shows "t' = t \<or>
         (mode_of (heap t a) = Inr READ \<and>
          (\<exists>d v. inputs (heap t a) d = [] \<and>
             heap t' = (heap t)(a := write_input d v (heap t a)) \<and>
             (\<exists>q vs. buffered_input t a = Some q \<and> (d, v # vs) \<in> set q) \<and>
             num_buffered_inputs t' = num_buffered_inputs t - 1 \<and>
             (\<forall>b e. buffered t b e = buffered t' b e + (if b = a \<and> e = d then 1 else 0))))"
proof (cases "buffered_input t a")
  case None
  with assms show ?thesis by (simp add: inject_def)
next
  case (Some q)
  show ?thesis
  proof (cases "mode_of (heap t a) = Inr READ")
    case False
    with assms Some show ?thesis
      by (auto simp: inject_def split: sum.splits if_splits)
  next
    case True
    obtain q' n' b where f: "inject_first q (heap t a) = (q', n', b)"
      by (cases "inject_first q (heap t a)")
    with assms Some True have t': "t' = t \<lparr> heap := (heap t)(a := n'),
        buffered_input := (buffered_input t)(a \<mapsto> q'),
        num_buffered_inputs := num_buffered_inputs t - (if b then 1 else 0) \<rparr>"
      by (simp add: inject_def)
    from inject_first_spec [OF f] show ?thesis
    proof
      assume "\<not> b \<and> q' = q \<and> n' = heap t a"
      with t' Some have "t' = t" by (simp add: map_upd_triv)
      then show ?thesis ..
    next
      assume "b \<and> (\<exists>pre d v vs post. q = pre @ (d, v # vs) # post \<and>
          q' = pre @ (d, vs) # post \<and> inputs (heap t a) d = [] \<and>
          n' = write_input d v (heap t a))"
      then obtain pre d v vs post where b: "b" and q: "q = pre @ (d, v # vs) # post"
        and q': "q' = pre @ (d, vs) # post" and e: "inputs (heap t a) d = []"
        and n': "n' = write_input d v (heap t a)" by blast
      have 1: "\<forall>c e. buffered t c e = buffered t' c e + (if c = a \<and> e = d then 1 else 0)"
        using t' Some q q' by (simp add: buffered_def)
      have 2: "\<exists>q vs. buffered_input t a = Some q \<and> (d, v # vs) \<in> set q"
        using q Some by auto
      have 3: "heap t' = (heap t)(a := write_input d v (heap t a))"
        using t' n' by simp
      have 4: "num_buffered_inputs t' = num_buffered_inputs t - 1"
        using t' b by simp
      from e 1 2 3 4 have "\<exists>d v. inputs (heap t a) d = [] \<and>
             heap t' = (heap t)(a := write_input d v (heap t a)) \<and>
             (\<exists>q vs. buffered_input t a = Some q \<and> (d, v # vs) \<in> set q) \<and>
             num_buffered_inputs t' = num_buffered_inputs t - 1 \<and>
             (\<forall>b e. buffered t b e = buffered t' b e + (if b = a \<and> e = d then 1 else 0))"
        by (intro exI [of _ d] exI [of _ v]) simp
      with True show ?thesis by simp
    qed
  qed
qed

lemma tis_next_visit:
  assumes "tis_next k t = Some (Inr t')"
  shows "\<exists>t1 fr.
           inject t (fst (node_runs t ! next_index t)) = Inr t1 \<and>
           node_next k (snd (node_runs t ! next_index t)) (heap t1)
             (fst (node_runs t ! next_index t)) = Some (Inr (fr, heap t')) \<and>
           buffered_input t' = buffered_input t1 \<and>
           num_buffered_inputs t' = num_buffered_inputs t1 \<and>
           node_runs t' =
             (node_runs t)[next_index t := (fst (node_runs t ! next_index t), Suspended fr)] \<and>
           cursor t' = next_index t + 1 \<and> next_index t < length (node_runs t)"
proof -
  from assms have ne: "node_runs t \<noteq> []" by (auto simp: tis_next_def split: if_splits)
  let ?c = "next_index t"
  let ?a = "fst (node_runs t ! ?c)"
  let ?g = "snd (node_runs t ! ?c)"
  from assms ne obtain t1 fr h' where i: "inject t ?a = Inr t1"
    and n: "node_next k ?g (heap t1) ?a = Some (Inr (fr, h'))"
    and t': "t' = t1 \<lparr> heap := h', node_runs := (node_runs t1)[?c := (?a, Suspended fr)],
                      cursor := ?c + 1 \<rparr>"
    by (auto simp: tis_next_def Let_def next_index_def split: sum.splits option.splits)
  from ne have "?c < length (node_runs t)" by (simp add: next_index_def)
  with i n t' inject_fields(1) [OF i] show ?thesis by auto
qed

lemma tis_next_buffered:
  assumes "tis_next k t = Some (Inr t')"
  shows "\<exists>d j. j \<le> 1 \<and>
           (\<forall>b e. buffered t b e =
              buffered t' b e + (if b = fst (node_runs t ! next_index t) \<and> e = d then j else 0))"
proof -
  from tis_next_visit [OF assms] obtain t1 where
    i: "inject t (fst (node_runs t ! next_index t)) = Inr t1"
    and b: "buffered_input t' = buffered_input t1" by blast
  from b have eq: "\<And>b e. buffered t' b e = buffered t1 b e" by (simp add: buffered_def)
  from inject_spec [OF i] show ?thesis
  proof
    assume "t1 = t"
    with eq have "\<forall>b e. buffered t b e =
        buffered t' b e + (if b = fst (node_runs t ! next_index t) \<and> e = UP then 0 else 0)"
      by simp
    then show ?thesis by (intro exI [of _ UP] exI [of _ 0]) simp
  next
    assume "mode_of (heap t (fst (node_runs t ! next_index t))) = Inr READ \<and>
      (\<exists>d v. inputs (heap t (fst (node_runs t ! next_index t))) d = [] \<and>
         heap t1 = (heap t)(fst (node_runs t ! next_index t) :=
           write_input d v (heap t (fst (node_runs t ! next_index t)))) \<and>
         (\<exists>q vs. buffered_input t (fst (node_runs t ! next_index t)) = Some q \<and>
            (d, v # vs) \<in> set q) \<and>
         num_buffered_inputs t1 = num_buffered_inputs t - 1 \<and>
         (\<forall>b e. buffered t b e = buffered t1 b e +
            (if b = fst (node_runs t ! next_index t) \<and> e = d then 1 else 0)))"
    then obtain d where "\<forall>b e. buffered t b e = buffered t1 b e +
            (if b = fst (node_runs t ! next_index t) \<and> e = d then 1 else 0)" by blast
    with eq show ?thesis by (intro exI [of _ d] exI [of _ 1]) simp
  qed
qed

text \<open>
  \<open>m\<close> consecutive visits of one pass of the \<^verbatim>\<open>for\<close> loop take at most one buffered
  value for each queue of each visited node, and none for any other node.
\<close>

lemma pass_buffered:
  assumes "tis_steps k m t = Some (Inr t')"
    and "next_index t + m \<le> length (node_runs t)"
    and "distinct (map fst (node_runs t))"
  shows "\<forall>b e. buffered t' b e \<le> buffered t b e \<and>
           buffered t b e \<le> buffered t' b e +
             (if b \<in> fst ` set (take m (drop (next_index t) (node_runs t))) then 1 else 0)"
  using assms
proof (induction m arbitrary: t)
  case 0
  then show ?case by simp
next
  case (Suc m)
  let ?c = "next_index t"
  let ?a = "fst (node_runs t ! ?c)"
  from Suc.prems(1) obtain t1 where s1: "tis_next k t = Some (Inr t1)"
    and s2: "tis_steps k m t1 = Some (Inr t')"
    by (auto split: option.splits sum.splits)
  from tis_next_visit [OF s1] obtain fr where
    runs: "node_runs t1 = (node_runs t)[?c := (?a, Suspended fr)]"
    and cur: "cursor t1 = ?c + 1" and c: "?c < length (node_runs t)" by blast
  from runs c have fsts: "map fst (node_runs t1) = map fst (node_runs t)"
    by (simp add: map_update) (metis list_update_id map_update)
  from runs have len: "length (node_runs t1) = length (node_runs t)" by simp
  from tis_next_buffered [OF s1] obtain d j where j: "j \<le> 1"
    and b1: "\<forall>b e. buffered t b e = buffered t1 b e + (if b = ?a \<and> e = d then j else 0)"
    by blast
  show ?case
  proof (cases m)
    case 0
    with s2 have "t' = t1" by simp
    moreover have "?a \<in> fst ` set (take (Suc 0) (drop ?c (node_runs t)))"
      using c by (simp add: take_Suc_conv_app_nth hd_drop_conv_nth take_Suc)
    ultimately show ?thesis using b1 j 0 by auto
  next
    case (Suc m')
    with Suc.prems(2) cur len have n1: "next_index t1 = ?c + 1"
      by (simp add: next_index_def)
    with Suc.prems(2) len have p2: "next_index t1 + m \<le> length (node_runs t1)" by simp
    from Suc.prems(3) fsts have p3: "distinct (map fst (node_runs t1))" by simp
    note IH = Suc.IH [OF s2 p2 p3]
    have drop1: "fst ` set (take m (drop (next_index t1) (node_runs t1))) =
        fst ` set (take m (drop (Suc ?c) (node_runs t)))"
    proof -
      have "map fst (take m (drop (Suc ?c) (node_runs t1))) =
          map fst (take m (drop (Suc ?c) (node_runs t)))"
        using fsts by (simp add: take_map [symmetric] drop_map [symmetric])
      then show ?thesis using n1 by (metis Suc_eq_plus1 list.set_map)
    qed
    have split: "take (Suc m) (drop ?c (node_runs t)) =
        node_runs t ! ?c # take m (drop (Suc ?c) (node_runs t))"
      using c by (simp add: Cons_nth_drop_Suc [symmetric])
    have notin: "?a \<notin> fst ` set (take m (drop (Suc ?c) (node_runs t)))"
    proof -
      have "map fst (take (Suc m) (drop ?c (node_runs t))) =
          take (Suc m) (drop ?c (map fst (node_runs t)))"
        by (simp only: take_map drop_map)
      then have "distinct (map fst (take (Suc m) (drop ?c (node_runs t))))"
        using Suc.prems(3) by (simp only: distinct_take distinct_drop)
      with split show ?thesis by simp
    qed
    show ?thesis
    proof (intro allI)
      fix b e
      from IH drop1 have i: "buffered t' b e \<le> buffered t1 b e"
        "buffered t1 b e \<le> buffered t' b e +
           (if b \<in> fst ` set (take m (drop (Suc ?c) (node_runs t))) then 1 else 0)"
        by simp_all
      from b1 have b: "buffered t b e = buffered t1 b e + (if b = ?a \<and> e = d then j else 0)"
        by simp
      show "buffered t' b e \<le> buffered t b e \<and>
           buffered t b e \<le> buffered t' b e +
             (if b \<in> fst ` set (take (Suc m) (drop ?c (node_runs t))) then 1 else 0)"
        using i b j notin split by (cases "b = ?a") auto
    qed
  qed
qed

lemma reach_scheduled:
  "reach t0 t \<Longrightarrow> map fst (node_runs t) = filter (\<lambda>a. loaded (heap t0 a)) (nodes t0)"
proof (induction rule: reach.induct)
  case start
  then show ?case by (simp add: run_start_def comp_def)
next
  case (step t k t')
  with tis_next_effect [OF step.hyps(2)] show ?case by auto
qed

text \<open>
  Claim C7. An injection for a node either changes nothing, or it takes place with the
  node's mode READ and moves exactly one value, the head of a list buffered for a
  direction \<open>d\<close> whose queue at the node is empty, into the node through
  \<^verbatim>\<open>write_input\<close>; the store changes in nothing else and the host's count drops by
  one. A \<^verbatim>\<open>next\<close> on \<^verbatim>\<open>TIS.run\<close> injects for the node it is about to advance and then
  advances that node from the store that holds the injected value. Over one pass of
  the \<^verbatim>\<open>for\<close> loop over all generators (a scheduler cycle) the number of values
  buffered for any node and direction drops by at most one.
\<close>

theorem host_injection:
  "(inject t a = Inr t1 \<longrightarrow>
      t1 = t \<or>
      (mode_of (heap t a) = Inr READ \<and>
       (\<exists>d v. inputs (heap t a) d = [] \<and>
          heap t1 = (heap t)(a := write_input d v (heap t a)) \<and>
          (\<exists>q vs. buffered_input t a = Some q \<and> (d, v # vs) \<in> set q) \<and>
          num_buffered_inputs t1 = num_buffered_inputs t - 1 \<and>
          (\<forall>b e. buffered t b e = buffered t1 b e + (if b = a \<and> e = d then 1 else 0))))) \<and>
   (tis_next k t = Some (Inr t') \<longrightarrow>
      (\<exists>t2 fr.
         inject t (fst (node_runs t ! next_index t)) = Inr t2 \<and>
         node_next k (snd (node_runs t ! next_index t)) (heap t2)
           (fst (node_runs t ! next_index t)) = Some (Inr (fr, heap t')) \<and>
         buffered_input t' = buffered_input t2)) \<and>
   (reach t0 t \<and> distinct (nodes t0) \<and> next_index t = 0 \<and>
    tis_steps k (length (node_runs t)) t = Some (Inr t'') \<longrightarrow>
      (\<forall>b e. buffered t'' b e \<le> buffered t b e \<and> buffered t b e \<le> buffered t'' b e + 1))"
proof (intro conjI impI)
  assume "inject t a = Inr t1"
  then show "t1 = t \<or>
      (mode_of (heap t a) = Inr READ \<and>
       (\<exists>d v. inputs (heap t a) d = [] \<and>
          heap t1 = (heap t)(a := write_input d v (heap t a)) \<and>
          (\<exists>q vs. buffered_input t a = Some q \<and> (d, v # vs) \<in> set q) \<and>
          num_buffered_inputs t1 = num_buffered_inputs t - 1 \<and>
          (\<forall>b e. buffered t b e = buffered t1 b e + (if b = a \<and> e = d then 1 else 0))))"
    by (rule inject_spec)
next
  assume "tis_next k t = Some (Inr t')"
  from tis_next_visit [OF this]
  show "\<exists>t2 fr.
         inject t (fst (node_runs t ! next_index t)) = Inr t2 \<and>
         node_next k (snd (node_runs t ! next_index t)) (heap t2)
           (fst (node_runs t ! next_index t)) = Some (Inr (fr, heap t')) \<and>
         buffered_input t' = buffered_input t2"
    by (elim exE conjE, intro exI conjI) assumption+
next
  assume a: "reach t0 t \<and> distinct (nodes t0) \<and> next_index t = 0 \<and>
    tis_steps k (length (node_runs t)) t = Some (Inr t'')"
  then have d: "distinct (map fst (node_runs t))"
    using reach_scheduled [of t0 t] by simp
  from a have "next_index t + length (node_runs t) \<le> length (node_runs t)" by simp
  from a have s: "tis_steps k (length (node_runs t)) t = Some (Inr t'')" by simp
  note P = pass_buffered [OF s \<open>next_index t + length (node_runs t) \<le> length (node_runs t)\<close> d]
  show "\<forall>b e. buffered t'' b e \<le> buffered t b e \<and> buffered t b e \<le> buffered t'' b e + 1"
  proof (intro allI conjI)
    fix b e
    from P show "buffered t'' b e \<le> buffered t b e" by blast
    from P have "buffered t b e \<le> buffered t'' b e +
        (if b \<in> fst ` set (take (length (node_runs t)) (drop (next_index t) (node_runs t)))
         then 1 else 0)" by blast
    also have "\<dots> \<le> buffered t'' b e + 1" by simp
    finally show "buffered t b e \<le> buffered t'' b e + 1" .
  qed
qed

text \<open>The first two steps of the grid \<open>grid_host\<close>.\<close>

lemma host_first_steps:
  "\<exists>t1 ti t2.
     tis_next 1 (run_start grid_host) = Some (Inr t1) \<and>
     node_runs t1 = [(0, Suspended (InMovRead (Some ''ACC'') (ReadWait UP)))] \<and>
     cursor t1 = 1 \<and> buffered t1 0 UP = 2 \<and> inputs (heap t1 0) UP = [] \<and>
     inject t1 0 = Inr ti \<and> inputs (heap ti 0) UP = [5] \<and> buffered ti 0 UP = 1 \<and>
     tis_next 1 t1 = Some (Inr t2) \<and>
     node_runs t2 = [(0, Suspended (InMovRead (Some ''ACC'') (ReadValue 5)))] \<and>
     inputs (heap t2 0) UP = [] \<and> buffered t2 0 UP = 1"
  by (simp add: grid_host_def buffer_input_def buffered_def prog_in_def grid_loaded_def
      run_start_def grid_nodes loaded_def load_bytecode_def grid_0 Node_init_def
      tis_defs run_defs read_input_start_def read_input_loop_def read_input_def)

lemma grid_host_distinct: "distinct (nodes grid_host)"
  by (simp add: grid_host_def buffer_input_def grid_loaded_def grid_nodes)

theorem host_injection_witness:
  "\<exists>t1 ti t2.
     tis_next 1 (run_start grid_host) = Some (Inr t1) \<and> reach grid_host t1 \<and>
     next_index t1 = 0 \<and> fst (node_runs t1 ! 0) = 0 \<and>
     inject t1 0 = Inr ti \<and> ti \<noteq> t1 \<and> mode_of (heap t1 0) = Inr READ \<and>
     inputs (heap t1 0) UP = [] \<and> inputs (heap ti 0) UP = [5] \<and>
     tis_next 1 t1 = Some (Inr t2) \<and> tis_steps 1 (length (node_runs t1)) t1 = Some (Inr t2) \<and>
     buffered t1 0 UP = 2 \<and> buffered t2 0 UP = 1 \<and>
     buffered t2 0 UP \<le> buffered t1 0 UP \<and> buffered t1 0 UP \<le> buffered t2 0 UP + 1"
proof -
  from host_first_steps obtain t1 ti t2 where
    s1: "tis_next 1 (run_start grid_host) = Some (Inr t1)"
    and r1: "node_runs t1 = [(0, Suspended (InMovRead (Some ''ACC'') (ReadWait UP)))]"
    and c1: "cursor t1 = 1" and b1: "buffered t1 0 UP = 2" and e1: "inputs (heap t1 0) UP = []"
    and i: "inject t1 0 = Inr ti" and qi: "inputs (heap ti 0) UP = [5]"
    and s2: "tis_next 1 t1 = Some (Inr t2)" and b2: "buffered t2 0 UP = 1"
    by blast
  have re: "reach grid_host t1" using reach.step [OF reach.start s1] .
  have n0: "next_index t1 = 0" using r1 c1 by (simp add: next_index_def)
  have st: "tis_steps 1 (length (node_runs t1)) t1 = Some (Inr t2)" using r1 s2 by simp
  have ne: "ti \<noteq> t1" using qi e1 by auto
  note H = host_injection [where t = t1 and a = 0 and ?t1.0 = ti and k = 1 and t' = t2
      and ?t0.0 = grid_host and t'' = t2]
  from H i ne have m: "mode_of (heap t1 0) = Inr READ" by blast
  from H re grid_host_distinct n0 st
  have le: "buffered t2 0 UP \<le> buffered t1 0 UP \<and> buffered t1 0 UP \<le> buffered t2 0 UP + 1"
    by blast
  from s1 re n0 r1 i ne m e1 qi s2 st b1 b2 le show ?thesis
    by (intro exI [of _ t1] exI [of _ ti] exI [of _ t2]) simp
qed

section \<open>The mode stack never runs empty\<close>

lemma pop_deep:
  "mode_stack n \<noteq> [] \<Longrightarrow>
   \<exists>n'. pop_mode n = Inr n' \<and> length (mode_stack n') = length (mode_stack n) - 1"
  by (auto simp: pop_mode_def)

lemma push_deep [simp]: "length (mode_stack (push_mode m n)) = Suc (length (mode_stack n))"
  by (simp add: push_mode_def)

subsection \<open>Reading\<close>

lemma read_input_loop_ok:
  assumes "b + 1 \<le> length (mode_stack n)"
  shows "rd_ok b (read_input_loop d n)"
  using assms
  by (auto simp: rd_ok_def read_input_loop_def read_input_def has_inputs_def pop_mode_def
      split: list.splits)

lemma read_input_start_ok: "rd_ok (length (mode_stack n)) (read_input_start dopt n)"
proof (cases dopt)
  case None
  then show ?thesis by (simp add: read_input_start_def get_attached_node_def rd_ok_def)
next
  case (Some d)
  have "rd_ok (length (mode_stack n)) (read_input_loop d (push_mode READ n))"
    by (rule read_input_loop_ok) simp
  with Some show ?thesis by (simp add: read_input_start_def get_attached_node_def Let_def)
qed

lemma read_input_nb_ok:
  "read_input_nb d n \<noteq> Inl IndexError \<and>
   (\<forall>res n'. read_input_nb d n = Inr (res, n') \<longrightarrow>
      length (mode_stack n') = length (mode_stack n))"
  by (auto simp: read_input_nb_def read_input_def has_inputs_def pop_mode_def push_mode_def
      get_attached_node_def Let_def split: list.splits)

lemma any_read_pass_ok:
  "b + 1 \<le> length (mode_stack n) \<Longrightarrow> rd_ok b (any_read_pass ds n)"
proof (induction ds arbitrary: n)
  case Nil
  then show ?case by (simp add: rd_ok_def)
next
  case (Cons d ds)
  note nb = read_input_nb_ok [of d n]
  show ?case
  proof (cases "read_input_nb d n")
    case (Inl e)
    with nb show ?thesis by (simp add: rd_ok_def)
  next
    case (Inr y)
    obtain res n1 where y: "y = (res, n1)" by (cases y)
    with Inr nb have l: "length (mode_stack n1) = length (mode_stack n)" by simp
    show ?thesis
    proof (cases res)
      case None
      with Inr y have "any_read_pass (d # ds) n = any_read_pass ds n1" by simp
      with Cons.IH [of n1] Cons.prems l show ?thesis by simp
    next
      case (Some v)
      with Inr y have "any_read_pass (d # ds) n = Inr (AnyReadValue v, n1)" by simp
      with Cons.prems l show ?thesis by (simp add: rd_ok_def)
    qed
  qed
qed

lemma read_src_start_ok: "rd_ok (length (mode_stack n)) (read_src_start src n)"
proof (cases "src \<in> src_keywords")
  case True
  have "rd_ok (length (mode_stack n)) (any_read_pass DIRECTIONS (push_mode READ n))"
    by (rule any_read_pass_ok) simp
  with True show ?thesis
    unfolding src_keywords_def
    by (auto simp: read_src_start_simps read_input_start_ok) (simp_all add: rd_ok_def)
next
  case False
  then show ?thesis
    by (auto simp: read_src_start_literal rd_ok_def split: option.splits)
qed

lemma read_src_resume_ok:
  assumes "b + owed_r p \<le> length (mode_stack n)"
  shows "read_src_resume p n \<noteq> Inl IndexError \<and>
         (\<forall>p' n'. read_src_resume p n = Inr (Inl (p', n')) \<longrightarrow>
            b + owed_r p' \<le> length (mode_stack n')) \<and>
         (\<forall>v n'. read_src_resume p n = Inr (Inr (v, n')) \<longrightarrow> b \<le> length (mode_stack n'))"
proof (cases p)
  case (ReadWait d)
  with assms have "rd_ok b (read_input_loop d n)" by (simp add: read_input_loop_ok)
  with ReadWait show ?thesis
    by (auto simp: read_src_resume_def rd_ok_def split: sum.splits)
next
  case (ReadValue v)
  with assms show ?thesis by (simp add: read_src_resume_def)
next
  case (AnyReadValue v)
  with assms show ?thesis
    by (auto simp: read_src_resume_def pop_mode_def split: sum.splits)
next
  case AnyReadPoll
  with assms have "rd_ok b (any_read_pass DIRECTIONS n)" by (simp add: any_read_pass_ok)
  with AnyReadPoll show ?thesis
    by (auto simp: read_src_resume_def rd_ok_def split: sum.splits)
qed

subsection \<open>Writing\<close>

lemma hand_over_stack [simp]: "mode_stack (hand_over p d v h a a) = mode_stack (h a)"
  by (simp add: hand_over_def write_input_def Let_def)

lemma write_output_loop_ok:
  assumes "b + 1 \<le> length (mode_stack (h a))"
  shows "wr_ok b a (write_output_loop p od h a)"
  using assms by (auto simp: wr_ok_def write_output_loop_def pop_mode_def)

lemma write_output_start_ok:
  "wr_ok (length (mode_stack (h a))) a (write_output_start dopt v h a)"
proof (cases dopt)
  case None
  then show ?thesis by (simp add: write_output_start_def get_attached_node_def wr_ok_def)
next
  case (Some d)
  let ?h1 = "h(a := push_mode WRITE (h a))"
  show ?thesis
  proof (cases "attached_nodes (?h1 a) d")
    case None
    with Some show ?thesis
      by (simp add: write_output_start_def get_attached_node_def wr_ok_def Let_def)
  next
    case (Some p)
    have "wr_ok (length (mode_stack (h a))) a
            (write_output_loop p (opposite_directions d) (hand_over p d v ?h1 a) a)"
      by (rule write_output_loop_ok) simp
    with Some \<open>dopt = Some d\<close> show ?thesis
      by (simp add: write_output_start_def get_attached_node_def Let_def)
  qed
qed

lemma write_output_nb_ok:
  "write_output_nb d v h a \<noteq> Inl IndexError \<and>
   (\<forall>r h'. write_output_nb d v h a = Inr (r, h') \<longrightarrow>
      length (mode_stack (h' a)) = length (mode_stack (h a)))"
proof -
  let ?h1 = "h(a := push_mode WRITE (h a))"
  show ?thesis
  proof (cases "attached_nodes (?h1 a) d")
    case None
    then show ?thesis
      by (auto simp: write_output_nb_def get_attached_node_def pop_mode_def push_mode_def
          Let_def)
  next
    case (Some p)
    let ?h3 = "hand_over p d v ?h1 a"
    have "mode_stack (?h3 a) = mode_stack (h a) @ [WRITE]" by (simp add: push_mode_def)
    with Some show ?thesis
      by (auto simp: write_output_nb_def get_attached_node_def pop_mode_def Let_def)
  qed
qed

lemma any_write_pass_ok:
  "b + 1 \<le> length (mode_stack (h a)) \<Longrightarrow> wr_ok b a (any_write_pass ds v h a)"
proof (induction ds arbitrary: h)
  case Nil
  then show ?case by (simp add: wr_ok_def)
next
  case (Cons d ds)
  note nb = write_output_nb_ok [of d v h a]
  show ?case
  proof (cases "write_output_nb d v h a")
    case (Inl e)
    with nb show ?thesis by (simp add: wr_ok_def)
  next
    case (Inr y)
    obtain r h1 where y: "y = (r, h1)" by (cases y)
    with Inr nb have l: "length (mode_stack (h1 a)) = length (mode_stack (h a))" by simp
    show ?thesis
    proof (cases r)
      case True
      with Inr y Cons.prems l show ?thesis
        by (auto simp: wr_ok_def pop_mode_def)
    next
      case False
      with Inr y have "any_write_pass (d # ds) v h a = any_write_pass ds v h1 a" by simp
      with Cons.IH [of h1] Cons.prems l show ?thesis by simp
    qed
  qed
qed

lemma write_dest_start_ok:
  "wr_ok (length (mode_stack (h a))) a (write_dest_start dest v h a)"
proof (cases "dest \<in> dest_keywords")
  case True
  have "wr_ok (length (mode_stack (h a))) a
          (any_write_pass DIRECTIONS v (h(a := push_mode WRITE (h a))) a)"
    by (rule any_write_pass_ok) simp
  with True show ?thesis
    unfolding dest_keywords_def
    by (auto simp: write_dest_start_simps write_output_start_ok) (simp_all add: wr_ok_def)
next
  case False
  then show ?thesis by (simp add: write_dest_start_other wr_ok_def)
qed

lemma write_dest_resume_ok:
  assumes "b + owed_w p \<le> length (mode_stack (h a))"
  shows "wr_ok b a (write_dest_resume p h a)"
  using assms
  by (cases p)
    (simp_all add: write_dest_resume_def write_output_loop_ok any_write_pass_ok, simp add: wr_ok_def)

lemma mov_write_ok: "wr_ok b a r \<Longrightarrow> out_ok b a (mov_write r)"
  by (auto simp: wr_ok_def out_ok_def mov_write_def split: sum.splits option.splits)

subsection \<open>Handlers and the loop of \<^verbatim>\<open>run\<close>\<close>

lemma cond_jmp_ok: "out_ok (length (mode_stack (h a))) a (cond_jmp c l h a)"
  by (auto simp: out_ok_def cond_jmp_def jmp_def split: option.splits sum.splits)

lemma reading_ok:
  assumes "\<And>p. owed (fr p) = owed_r p"
  shows "out_ok (length (mode_stack (h a))) a (reading fr src h a)"
  using read_src_start_ok [of "h a" src] assms
  by (auto simp: out_ok_def rd_ok_def reading_def split: sum.splits)

lemma handler_start_ok: "out_ok (length (mode_stack (h a))) a (handler_start m x y h a)"
  by (cases m) (simp_all add: cond_jmp_ok reading_ok, simp_all add: out_ok_def)

lemma handler_resume_ok:
  assumes "b + owed fr \<le> length (mode_stack (h a))"
  shows "out_ok b a (handler_resume fr h a)"
proof (cases fr)
  case InTail
  with assms show ?thesis by (simp add: handler_resume_def out_ok_def)
next
  case (InMovRead dest p)
  with assms have r: "b + owed_r p \<le> length (mode_stack (h a))" by simp
  note R = read_src_resume_ok [OF r]
  show ?thesis
  proof (cases "read_src_resume p (h a)")
    case (Inl e)
    with R InMovRead show ?thesis by (simp add: handler_resume_def out_ok_def)
  next
    case (Inr y)
    show ?thesis
    proof (cases y)
      case (Inl z)
      obtain p' n where "z = (p', n)" by (cases z)
      with R Inr Inl InMovRead show ?thesis by (simp add: handler_resume_def out_ok_def)
    next
      case (Inr z)
      obtain v n where z: "z = (v, n)" by (cases z)
      with R \<open>read_src_resume p (h a) = Inr y\<close> Inr have l: "b \<le> length (mode_stack n)"
        by simp
      have "wr_ok (length (mode_stack ((h(a := n)) a))) a (write_dest_start dest v (h(a := n)) a)"
        by (rule write_dest_start_ok)
      with l have "wr_ok b a (write_dest_start dest v (h(a := n)) a)"
        by (auto simp: wr_ok_def)
      from mov_write_ok [OF this] \<open>read_src_resume p (h a) = Inr y\<close> Inr z InMovRead
      show ?thesis by (simp add: handler_resume_def)
    qed
  qed
next
  case (InMovWrite p)
  with assms have "wr_ok b a (write_dest_resume p h a)" by (simp add: write_dest_resume_ok)
  from mov_write_ok [OF this] InMovWrite show ?thesis by (simp add: handler_resume_def)
next
  case (InAdd p)
  with assms have r: "b + owed_r p \<le> length (mode_stack (h a))" by simp
  from read_src_resume_ok [OF r] InAdd show ?thesis
    by (auto simp: handler_resume_def out_ok_def split: sum.splits)
next
  case (InSub p)
  with assms have r: "b + owed_r p \<le> length (mode_stack (h a))" by simp
  from read_src_resume_ok [OF r] InSub show ?thesis
    by (auto simp: handler_resume_def out_ok_def split: sum.splits)
next
  case (InJro p)
  with assms have r: "b + owed_r p \<le> length (mode_stack (h a))" by simp
  from read_src_resume_ok [OF r] InJro show ?thesis
    by (auto simp: handler_resume_def out_ok_def jro_tail_def Let_def
        split: sum.splits option.splits)
qed

text \<open>The fetch of a loaded node with a non-negative \<^verbatim>\<open>next_iptr\<close>, written out.\<close>

lemma get_next_op_loaded:
  assumes "loaded n" and "0 \<le> next_iptr n"
  shows "\<exists>os j. ops n = Some os \<and> 0 \<le> j \<and> j < int (length os) \<and>
           j = (if int (length os) \<le> next_iptr n then 0 else next_iptr n) \<and>
           get_next_op n = Inr (os ! nat j, n \<lparr> next_iptr := j, iptr := j \<rparr>)"
proof -
  from assms(1) obtain os where os: "ops n = Some os" "os \<noteq> []"
    by (auto simp: loaded_def split: option.splits)
  let ?j = "if int (length os) \<le> next_iptr n then 0 else next_iptr n"
  have "get_next_op n = Inr (os ! nat ?j, n \<lparr> next_iptr := ?j, iptr := ?j \<rparr>)"
    using os assms(2) by (simp add: get_next_op_def py_index_def Let_def)
  moreover have "0 \<le> ?j" "?j < int (length os)" using os assms(2) by simp_all
  ultimately show ?thesis using os(1) by blast
qed

lemma dispatch_ok:
  assumes "loaded (h a)" and "0 \<le> next_iptr (h a)"
  shows "out_ok (Suc (length (mode_stack (h a)))) a (dispatch h a)"
proof -
  let ?n1 = "push_mode RUN (h a)"
  have "loaded ?n1" "0 \<le> next_iptr ?n1"
    using assms by (simp_all add: loaded_def push_mode_def)
  from get_next_op_loaded [OF this] obtain os j where
    g: "get_next_op ?n1 = Inr (os ! nat j, ?n1 \<lparr> next_iptr := j, iptr := j \<rparr>)"
    by blast
  obtain opn x y where i: "os ! nat j = (opn, x, y)" by (cases "os ! nat j")
  let ?h3 = "h(a := ?n1 \<lparr> next_iptr := j, iptr := j, next_iptr := j + 1 \<rparr>)"
  have d: "dispatch h a =
             (case op_table opn of
                None \<Rightarrow> Inl AssertionError
              | Some m \<Rightarrow> handler_start m x y ?h3 a)"
    using g i by (simp add: dispatch_def Let_def split: option.splits)
  show ?thesis
  proof (cases "op_table opn")
    case None
    with d show ?thesis by (simp add: out_ok_def)
  next
    case (Some m)
    have "out_ok (length (mode_stack (?h3 a))) a (handler_start m x y ?h3 a)"
      by (rule handler_start_ok)
    with d Some show ?thesis by (simp add: push_mode_def)
  qed
qed

lemma frame_keeps_fetch:
  assumes "frame a h h'" and "loaded (h a)" and "0 \<le> next_iptr (h a)"
  shows "loaded (h' a)" "0 \<le> next_iptr (h' a)"
  using assms by (simp_all add: frame_loaded frame_next_iptr)

lemma run_loop_ok:
  "loaded (h a) \<Longrightarrow> 0 \<le> next_iptr (h a) \<Longrightarrow> next_ok a (run_loop k h a)"
proof (induction k arbitrary: h)
  case 0
  then show ?case by (simp add: next_ok_def)
next
  case (Suc k)
  note D = dispatch_ok [of h a, OF Suc.prems]
  show ?case
  proof (cases "dispatch h a")
    case (Inl e)
    with D show ?thesis by (simp add: next_ok_def out_ok_def)
  next
    case (Inr out)
    note f = frame_dispatch [OF Inr]
    show ?thesis
    proof (cases out)
      case (Yield fr h1)
      with D Inr show ?thesis by (simp add: next_ok_def out_ok_def)
    next
      case (Finish h1)
      with D Inr have "mode_stack (h1 a) \<noteq> []" by (auto simp: out_ok_def)
      from pop_deep [OF this] obtain n where p: "pop_mode (h1 a) = Inr n" by blast
      from f Finish have "frame a h h1" by simp
      with frame_pop [of h1 a n, OF p] have "frame a h (h1(a := n))" by (blast intro: frame_trans)
      from frame_keeps_fetch [OF this Suc.prems]
      have "next_ok a (run_loop k (h1(a := n)) a)" by (rule Suc.IH)
      with Inr Finish p show ?thesis by simp
    qed
  qed
qed

lemma node_next_ok:
  assumes "loaded (h a)" and "0 \<le> next_iptr (h a)"
    and "owed_gen g \<le> length (mode_stack (h a))"
  shows "next_ok a (node_next k g h a)"
proof (cases g)
  case NotStarted
  with assms show ?thesis by (simp add: node_next_def run_loop_ok)
next
  case (Suspended f0)
  with assms(3) have "1 + owed f0 \<le> length (mode_stack (h a))" by simp
  note R = handler_resume_ok [of 1 f0 h a, OF this]
  show ?thesis
  proof (cases "handler_resume f0 h a")
    case (Inl e)
    with R Suspended show ?thesis by (simp add: node_next_def next_ok_def out_ok_def)
  next
    case (Inr out)
    note f = frame_handler_resume [OF Inr]
    show ?thesis
    proof (cases out)
      case (Yield fr h1)
      with R Inr Suspended show ?thesis by (simp add: node_next_def next_ok_def out_ok_def)
    next
      case (Finish h1)
      with R Inr have "mode_stack (h1 a) \<noteq> []" by (auto simp: out_ok_def)
      from pop_deep [OF this] obtain n where p: "pop_mode (h1 a) = Inr n" by blast
      from f Finish have "frame a h h1" by simp
      with frame_pop [of h1 a n, OF p] have "frame a h (h1(a := n))" by (blast intro: frame_trans)
      from frame_keeps_fetch [OF this assms(1,2)]
      have "next_ok a (run_loop k (h1(a := n)) a)" by (rule run_loop_ok)
      with Inr Finish p Suspended show ?thesis by (simp add: node_next_def)
    qed
  qed
qed

subsection \<open>The stores in which a step fetches\<close>

lemma fetches_after:
  assumes "h' \<in> set (case r of
             Inr (Finish h1) \<Rightarrow>
               (case pop_mode (h1 a) of Inl e \<Rightarrow> [] | Inr n \<Rightarrow> loop_fetches k (h1(a := n)) a)
           | _ \<Rightarrow> [])"
  shows "\<exists>h1 n. r = Inr (Finish h1) \<and> pop_mode (h1 a) = Inr n \<and>
           h' \<in> set (loop_fetches k (h1(a := n)) a)"
proof (cases r)
  case (Inl e)
  with assms show ?thesis by simp
next
  case (Inr out)
  show ?thesis
  proof (cases out)
    case (Yield fr h1)
    with assms Inr show ?thesis by simp
  next
    case (Finish h1)
    with assms Inr show ?thesis by (cases "pop_mode (h1 a)") simp_all
  qed
qed

lemma loop_fetches_frame:
  "h' \<in> set (loop_fetches k h a) \<Longrightarrow> frame a h h'"
proof (induction k arbitrary: h)
  case 0
  then show ?case by simp
next
  case (Suc k)
  show ?case
  proof (cases "h' = h")
    case True
    then show ?thesis by simp
  next
    case False
    with Suc.prems have "h' \<in> set (case dispatch h a of
             Inr (Finish h1) \<Rightarrow>
               (case pop_mode (h1 a) of Inl e \<Rightarrow> [] | Inr n \<Rightarrow> loop_fetches k (h1(a := n)) a)
           | _ \<Rightarrow> [])" by simp
    from fetches_after [OF this] obtain h1 n where d: "dispatch h a = Inr (Finish h1)"
      and p: "pop_mode (h1 a) = Inr n" and m: "h' \<in> set (loop_fetches k (h1(a := n)) a)"
      by blast
    from frame_dispatch [OF d] have "frame a h h1" by simp
    with frame_pop [of h1 a n, OF p] Suc.IH [OF m] show ?thesis by (blast intro: frame_trans)
  qed
qed

lemma next_fetches_frame:
  assumes "h' \<in> set (next_fetches k g h a)"
  shows "frame a h h'"
proof (cases g)
  case NotStarted
  with assms show ?thesis by (simp add: next_fetches_def loop_fetches_frame)
next
  case (Suspended fr)
  with assms have "h' \<in> set (case handler_resume fr h a of
             Inr (Finish h1) \<Rightarrow>
               (case pop_mode (h1 a) of Inl e \<Rightarrow> [] | Inr n \<Rightarrow> loop_fetches k (h1(a := n)) a)
           | _ \<Rightarrow> [])" by (simp add: next_fetches_def)
  from fetches_after [OF this] obtain h1 n where r: "handler_resume fr h a = Inr (Finish h1)"
    and p: "pop_mode (h1 a) = Inr n" and m: "h' \<in> set (loop_fetches k (h1(a := n)) a)"
    by blast
  from frame_handler_resume [OF r] have "frame a h h1" by simp
  with frame_pop [of h1 a n, OF p] loop_fetches_frame [OF m] show ?thesis by (blast intro: frame_trans)
qed

subsection \<open>The steps of \<^verbatim>\<open>TIS.run\<close>\<close>

text \<open>The list of generators, whose first components are distinct.\<close>

lemma runs_unique:
  assumes "distinct (map fst R)" and "c < length R" and "R ! c = (a, g)" and "(a, x) \<in> set R"
  shows "x = g"
proof -
  from assms(4) obtain i where i: "i < length R" "R ! i = (a, x)"
    by (auto simp: in_set_conv_nth)
  with assms(2,3) have "map fst R ! i = map fst R ! c" by simp
  moreover have "i < length (map fst R)" "c < length (map fst R)" using i(1) assms(2) by simp_all
  ultimately have "i = c" using assms(1) nth_eq_iff_index_eq [of "map fst R" i c] by blast
  with i(2) assms(3) show ?thesis by simp
qed

lemma runs_update:
  assumes "distinct (map fst R)" and "c < length R" and "R ! c = (a, g)"
  shows "(w, x) \<in> set (R[c := (a, y)]) \<longleftrightarrow> (if w = a then x = y else (w, x) \<in> set R)"
proof (cases "w = a")
  case True
  have "(a, x) \<in> set (R[c := (a, y)]) \<longleftrightarrow> x = y"
  proof
    assume "(a, x) \<in> set (R[c := (a, y)])"
    moreover have "distinct (map fst (R[c := (a, y)]))"
      using assms by (simp add: map_update) (metis fst_conv list_update_id map_update)
    moreover have "R[c := (a, y)] ! c = (a, y)" using assms(2) by simp
    ultimately show "x = y" using assms(2) runs_unique [of "R[c := (a, y)]" c a y x] by simp
  next
    assume "x = y"
    then show "(a, x) \<in> set (R[c := (a, y)])" using assms(2) by (simp add: set_update_memI)
  qed
  with True show ?thesis by simp
next
  case False
  have "(w, x) \<in> set (R[c := (a, y)]) \<longleftrightarrow> (w, x) \<in> set R"
  proof
    assume "(w, x) \<in> set (R[c := (a, y)])"
    then have "(w, x) \<in> insert (a, y) (set R)"
      using set_update_subset_insert by fastforce
    with False show "(w, x) \<in> set R" by simp
  next
    assume "(w, x) \<in> set R"
    then obtain i where i: "i < length R" "R ! i = (w, x)" by (auto simp: in_set_conv_nth)
    with False assms(3) have "i \<noteq> c" by auto
    with i have "R[c := (a, y)] ! i = (w, x)" by simp
    with i(1) show "(w, x) \<in> set (R[c := (a, y)])"
      by (metis length_list_update nth_mem)
  qed
  with False show ?thesis by simp
qed

lemma inject_ok: "mode_stack (heap t a) \<noteq> [] \<Longrightarrow> inject t a \<noteq> Inl IndexError"
  by (auto simp: inject_def mode_of_def split: option.splits prod.splits)

lemma inject_regs:
  assumes "inject t a = Inr t1"
  shows "mode_stack (heap t1 b) = mode_stack (heap t b)" "loaded (heap t1 b) = loaded (heap t b)"
    "next_iptr (heap t1 b) = next_iptr (heap t b)"
proof -
  from inject_fields(4) [OF assms] have "same_regs (heap t b) (heap t1 b)" by simp
  then show "mode_stack (heap t1 b) = mode_stack (heap t b)"
    "loaded (heap t1 b) = loaded (heap t b)" "next_iptr (heap t1 b) = next_iptr (heap t b)"
    by (simp_all add: same_regs_def loaded_def)
qed

lemma tis_next_no_index_error:
  assumes s: "stacks_ok t"
    and l: "\<forall>e \<in> set (node_runs t). loaded (heap t (fst e)) \<and> 0 \<le> next_iptr (heap t (fst e))"
  shows "tis_next k t \<noteq> Some (Inl IndexError)"
proof (cases "node_runs t = []")
  case True
  then show ?thesis by (simp add: tis_next_def)
next
  case False
  let ?c = "if cursor t < length (node_runs t) then cursor t else 0"
  let ?a = "fst (node_runs t ! ?c)"
  let ?g = "snd (node_runs t ! ?c)"
  from False have "?c < length (node_runs t)" by simp
  then have m: "node_runs t ! ?c \<in> set (node_runs t)" by (rule nth_mem)
  with s have st: "owed_gen ?g \<le> length (mode_stack (heap t ?a))"
    and ne: "mode_stack (heap t ?a) \<noteq> []"
    unfolding stacks_ok_def by blast+
  from m l have lo: "loaded (heap t ?a)" "0 \<le> next_iptr (heap t ?a)" by blast+
  show ?thesis
  proof (cases "inject t ?a")
    case (Inl e)
    with inject_ok [OF ne] have "e \<noteq> IndexError" by auto
    with Inl False show ?thesis by (simp add: tis_next_def Let_def)
  next
    case (Inr t1)
    note r = inject_regs [OF Inr]
    have "next_ok ?a (node_next k ?g (heap t1) ?a)"
      using lo st by (intro node_next_ok) (simp_all add: r)
    then have "node_next k ?g (heap t1) ?a \<noteq> Some (Inl IndexError)" by (simp add: next_ok_def)
    with Inr False show ?thesis
      by (auto simp: tis_next_def Let_def split: option.splits sum.splits)
  qed
qed

lemma tis_next_stacks:
  assumes n: "tis_next k t = Some (Inr t')" and s: "stacks_ok t"
    and d: "distinct (map fst (node_runs t))"
    and l: "\<forall>e \<in> set (node_runs t). loaded (heap t (fst e)) \<and> 0 \<le> next_iptr (heap t (fst e))"
  shows "stacks_ok t'"
proof -
  let ?c = "next_index t"
  let ?a = "fst (node_runs t ! ?c)"
  let ?g = "snd (node_runs t ! ?c)"
  from tis_next_visit [OF n] obtain t1 fr where
    i: "inject t ?a = Inr t1"
    and nn: "node_next k ?g (heap t1) ?a = Some (Inr (fr, heap t'))"
    and r: "node_runs t' = (node_runs t)[?c := (?a, Suspended fr)]"
    and c: "?c < length (node_runs t)"
    by blast
  note ir = inject_regs [OF i]
  from c have m: "node_runs t ! ?c \<in> set (node_runs t)" by (rule nth_mem)
  with s have st: "owed_gen ?g \<le> length (mode_stack (heap t ?a))"
    unfolding stacks_ok_def by blast
  from m l have lo: "loaded (heap t ?a)" "0 \<le> next_iptr (heap t ?a)" by blast+
  have "next_ok ?a (node_next k ?g (heap t1) ?a)"
    using lo st by (intro node_next_ok) (simp_all add: ir)
  with nn have a': "owed_gen (Suspended fr) \<le> length (mode_stack (heap t' ?a))"
    by (simp add: next_ok_def)
  from nn have f: "frame ?a (heap t1) (heap t')" by (rule frame_node_next)
  have ag: "node_runs t ! ?c = (?a, ?g)" by simp
  show ?thesis
    unfolding stacks_ok_def
  proof
    fix e assume e: "e \<in> set (node_runs t')"
    obtain b g' where bg: "e = (b, g')" by (cases e)
    show "owed_gen (snd e) \<le> length (mode_stack (heap t' (fst e))) \<and>
          mode_stack (heap t' (fst e)) \<noteq> []"
    proof (cases "b = ?a")
      case True
      with e bg r have "g' = Suspended fr"
        using runs_update [OF d c ag, of ?a g' "Suspended fr"] by simp
      with True bg a' show ?thesis by auto
    next
      case False
      with e bg r have "(b, g') \<in> set (node_runs t)"
        using runs_update [OF d c ag, of b g' "Suspended fr"] by simp
      with s have "owed_gen g' \<le> length (mode_stack (heap t b)) \<and> mode_stack (heap t b) \<noteq> []"
        unfolding stacks_ok_def by fastforce
      moreover from frame_same_regs [OF f False]
      have "mode_stack (heap t' b) = mode_stack (heap t1 b)" by (simp add: same_regs_def)
      ultimately show ?thesis using bg by (simp add: ir)
    qed
  qed
qed

lemma reach_stacks:
  assumes "reach t0 t" and z: "\<forall>b. 0 \<le> next_iptr (heap t0 b)"
    and d: "distinct (nodes t0)" and m: "\<forall>b. mode_stack (heap t0 b) \<noteq> []"
  shows "stacks_ok t"
  using assms(1)
proof induction
  case start
  from m show ?case by (auto simp: stacks_ok_def run_start_def)
next
  case (step t k t')
  note inv = reach_invariant [OF step.hyps(1) z]
  from reach_scheduled [OF step.hyps(1)] d have di: "distinct (map fst (node_runs t))" by simp
  have l: "\<forall>e \<in> set (node_runs t). loaded (heap t (fst e)) \<and> 0 \<le> next_iptr (heap t (fst e))"
  proof
    fix e assume "e \<in> set (node_runs t)"
    then have "fst e \<in> set (map fst (node_runs t))" by simp
    with inv have "loaded (heap t0 (fst e))" by simp
    with inv show "loaded (heap t (fst e)) \<and> 0 \<le> next_iptr (heap t (fst e))" by simp
  qed
  from step.hyps(2) step.IH di l show ?case by (rule tis_next_stacks)
qed

text \<open>
  What the loop of \<^verbatim>\<open>run\<close> returns comes from the turn that starts in one of these
  stores: an error is raised by that turn (in the fetch, in the handler, or in the
  \<^verbatim>\<open>pop_mode\<close> after it), and a suspension is the \<^verbatim>\<open>yield\<close> of its handler.
\<close>

lemma run_loop_at_fetch:
  "run_loop k h a = Some r \<Longrightarrow>
   \<exists>h' \<in> set (loop_fetches k h a).
     (\<forall>e. r = Inl e \<longrightarrow>
        dispatch h' a = Inl e \<or>
        (\<exists>h1. dispatch h' a = Inr (Finish h1) \<and> pop_mode (h1 a) = Inl e)) \<and>
     (\<forall>fr h''. r = Inr (fr, h'') \<longrightarrow> dispatch h' a = Inr (Yield fr h''))"
proof (induction k arbitrary: h)
  case 0
  then show ?case by simp
next
  case (Suc k)
  show ?case
  proof (cases "dispatch h a")
    case (Inl e)
    with Suc.prems show ?thesis by (intro bexI [of _ h]) auto
  next
    case (Inr out)
    show ?thesis
    proof (cases out)
      case (Yield fr h1)
      with Inr Suc.prems show ?thesis by (intro bexI [of _ h]) auto
    next
      case (Finish h1)
      show ?thesis
      proof (cases "pop_mode (h1 a)")
        case (Inl e)
        with Inr Finish Suc.prems show ?thesis by (intro bexI [of _ h]) auto
      next
        case (Inr n)
        with \<open>dispatch h a = Inr out\<close> Finish Suc.prems
        have "run_loop k (h1(a := n)) a = Some r" by simp
        from Suc.IH [OF this] obtain h' where
          m: "h' \<in> set (loop_fetches k (h1(a := n)) a)"
          and p: "(\<forall>e. r = Inl e \<longrightarrow>
                    dispatch h' a = Inl e \<or>
                    (\<exists>h1. dispatch h' a = Inr (Finish h1) \<and> pop_mode (h1 a) = Inl e)) \<and>
                  (\<forall>fr h''. r = Inr (fr, h'') \<longrightarrow> dispatch h' a = Inr (Yield fr h''))"
          by blast
        from m \<open>dispatch h a = Inr out\<close> Finish Inr
        have "h' \<in> set (loop_fetches (Suc k) h a)" by simp
        with p show ?thesis by blast
      qed
    qed
  qed
qed

section \<open>Only loaded nodes are advanced, and their fetch succeeds\<close>

text \<open>
  Claim C10. In every state that \<^verbatim>\<open>TIS.run\<close> can reach, the nodes with a generator are
  exactly the nodes of the grid whose program is non-empty; each of them still has its
  program and its instruction fetch (the wraparound included) succeeds with an index
  inside the program; a node with no program has all its registers, its mode stack and
  its instruction pointers as they were at the start, since it is never advanced; and
  the fetch succeeds on every state of a loaded node with a non-negative \<^verbatim>\<open>next_iptr\<close>.
  The same holds inside a step: in every store in which the \<^verbatim>\<open>next\<close> of a generator
  fetches an instruction, after the host's injection and after any number of handlers
  that returned without a \<^verbatim>\<open>yield\<close>, the node is loaded and its fetch succeeds inside
  the program. If moreover the nodes of the grid are distinct and no mode stack is
  empty at the start, no \<^verbatim>\<open>next\<close> on \<^verbatim>\<open>TIS.run\<close> raises an IndexError, whatever bound on
  the instructions the step is given.
\<close>

theorem only_loaded_nodes_step:
  assumes "reach t0 t" and "\<forall>b. 0 \<le> next_iptr (heap t0 b)"
  shows "map fst (node_runs t) = filter (\<lambda>a. loaded (heap t0 a)) (nodes t0) \<and>
         (\<forall>a \<in> set (map fst (node_runs t)). loaded (heap t a) \<and> fetch_ok (heap t a)) \<and>
         (\<forall>b. \<not> loaded (heap t0 b) \<longrightarrow> same_regs (heap t0 b) (heap t b)) \<and>
         (\<forall>n. loaded n \<and> 0 \<le> next_iptr n \<longrightarrow> fetch_ok n) \<and>
         (\<forall>e \<in> set (node_runs t). \<forall>k t1 h.
            inject t (fst e) = Inr t1 \<and> h \<in> set (next_fetches k (snd e) (heap t1) (fst e)) \<longrightarrow>
            loaded (h (fst e)) \<and> fetch_ok (h (fst e))) \<and>
         (distinct (nodes t0) \<and> (\<forall>b. mode_stack (heap t0 b) \<noteq> []) \<longrightarrow>
            (\<forall>k. tis_next k t \<noteq> Some (Inl IndexError)))"
proof -
  note inv = reach_invariant [OF assms]
  from inv have 1: "map fst (node_runs t) = filter (\<lambda>a. loaded (heap t0 a)) (nodes t0)"
    by simp
  then have s: "fst ` set (node_runs t) = {a \<in> set (nodes t0). loaded (heap t0 a)}"
    by (metis list.set_map set_filter)
  have l: "loaded (heap t a) \<and> 0 \<le> next_iptr (heap t a)"
    if "a \<in> set (map fst (node_runs t))" for a
  proof -
    from that s have "loaded (heap t0 a)" by simp
    with inv show ?thesis by simp
  qed
  have 2: "\<forall>a \<in> set (map fst (node_runs t)). loaded (heap t a) \<and> fetch_ok (heap t a)"
    using l by (simp add: fetch_ok_loaded)
  have 3: "\<forall>b. \<not> loaded (heap t0 b) \<longrightarrow> same_regs (heap t0 b) (heap t b)"
  proof (intro allI impI)
    fix b assume "\<not> loaded (heap t0 b)"
    with s have "b \<notin> fst ` set (node_runs t)" by simp
    with inv show "same_regs (heap t0 b) (heap t b)" by blast
  qed
  have 4: "\<forall>n. loaded n \<and> 0 \<le> next_iptr n \<longrightarrow> fetch_ok n"
    by (simp add: fetch_ok_loaded)
  have 5: "\<forall>e \<in> set (node_runs t). \<forall>k t1 h.
            inject t (fst e) = Inr t1 \<and> h \<in> set (next_fetches k (snd e) (heap t1) (fst e)) \<longrightarrow>
            loaded (h (fst e)) \<and> fetch_ok (h (fst e))"
  proof (intro ballI allI impI)
    fix e k t1 h
    assume e: "e \<in> set (node_runs t)"
      and a: "inject t (fst e) = Inr t1 \<and>
              h \<in> set (next_fetches k (snd e) (heap t1) (fst e))"
    from e have "fst e \<in> set (map fst (node_runs t))" by simp
    from l [OF this] inject_regs [OF conjunct1 [OF a]]
    have l1: "loaded (heap t1 (fst e))" "0 \<le> next_iptr (heap t1 (fst e))" by simp_all
    from a have "frame (fst e) (heap t1) h" by (blast intro: next_fetches_frame)
    from frame_keeps_fetch [OF this l1]
    show "loaded (h (fst e)) \<and> fetch_ok (h (fst e))" by (simp add: fetch_ok_loaded)
  qed
  have 6: "distinct (nodes t0) \<and> (\<forall>b. mode_stack (heap t0 b) \<noteq> []) \<longrightarrow>
            (\<forall>k. tis_next k t \<noteq> Some (Inl IndexError))"
  proof (intro impI allI)
    fix k
    assume h: "distinct (nodes t0) \<and> (\<forall>b. mode_stack (heap t0 b) \<noteq> [])"
    with assms have "stacks_ok t" by (blast intro: reach_stacks)
    moreover have "\<forall>e \<in> set (node_runs t).
        loaded (heap t (fst e)) \<and> 0 \<le> next_iptr (heap t (fst e))"
      using l by simp
    ultimately show "tis_next k t \<noteq> Some (Inl IndexError)"
      by (rule tis_next_no_index_error)
  qed
  from 1 2 3 4 5 6 show ?thesis by blast
qed

text \<open>
  The grid whose node 0 runs \<open>L: JNZ L\<close> and NOP with \<open>acc = 0\<close>. Each \<^verbatim>\<open>next\<close> fetches
  twice: the JNZ, whose test fails, and then the NOP. The second \<^verbatim>\<open>next\<close> starts with
  \<^verbatim>\<open>next_iptr = 2\<close>, the length of the program, which the fetch resets to 0.
\<close>

lemma attach_node_mode_stack [simp]:
  "mode_stack (attach_node a b d bidi h x) = mode_stack (h x)"
  by (simp add: attach_node_def Let_def)

lemma wire_cell_mode_stack [simp]: "mode_stack (wire_cell c h x) = mode_stack (h x)"
  by (cases c) (simp add: wire_cell_def Let_def)

lemma fold_wire_mode_stack [simp]: "mode_stack (fold wire_cell cs h x) = mode_stack (h x)"
  by (induction cs arbitrary: h) simp_all

lemma grid_loaded_mode_stack: "mode_stack (heap (grid_loaded c) b) = [IDLE]"
  by (simp add: grid_loaded_def load_bytecode_def TIS_init_def Node_init_def)

lemma jnz_steps:
  "\<exists>t1 t2 hA hB.
     tis_next 2 (grid_with prog_jnz) = Some (Inr t1) \<and>
     node_runs t1 = [(0, Suspended InTail)] \<and> next_iptr (heap t1 0) = 2 \<and>
     inject t1 0 = Inr t1 \<and>
     next_fetches 2 (Suspended InTail) (heap t1) 0 = [hA, hB] \<and>
     next_iptr (hA 0) = 2 \<and> ops (hA 0) = Some (fst prog_jnz) \<and>
     (case get_next_op (push_mode RUN (hA 0)) of
        Inl e \<Rightarrow> False
      | Inr (ins, n) \<Rightarrow> ins = (''JNZ'', Some ''L'', None) \<and> iptr n = 0) \<and>
     next_iptr (hB 0) = 1 \<and>
     tis_next 2 t1 = Some (Inr t2) \<and> node_runs t2 = [(0, Suspended InTail)] \<and>
     iptr (heap t2 0) = 1"
  by (simp add: numeral_2_eq_2 prog_jnz_def grid_defs tis_defs run_defs next_fetches_def)

theorem only_loaded_nodes_step_witness:
  "\<exists>t1 t2 hA hB.
     tis_next 2 (run_start (grid_loaded prog_jnz)) = Some (Inr t1) \<and>
     reach (grid_loaded prog_jnz) t1 \<and>
     (\<forall>b. 0 \<le> next_iptr (heap (grid_loaded prog_jnz) b)) \<and>
     distinct (nodes (grid_loaded prog_jnz)) \<and>
     (\<forall>b. mode_stack (heap (grid_loaded prog_jnz) b) \<noteq> []) \<and>
     map fst (node_runs t1) = [0] \<and> loaded (heap t1 0) \<and> fetch_ok (heap t1 0) \<and>
     \<not> loaded (heap (grid_loaded prog_jnz) 4) \<and>
     same_regs (heap (grid_loaded prog_jnz) 4) (heap t1 4) \<and>
     (0, Suspended InTail) \<in> set (node_runs t1) \<and> inject t1 0 = Inr t1 \<and>
     next_fetches 2 (Suspended InTail) (heap t1) 0 = [hA, hB] \<and>
     next_iptr (hA 0) = 2 \<and> ops (hA 0) = Some (fst prog_jnz) \<and>
     (case get_next_op (push_mode RUN (hA 0)) of
        Inl e \<Rightarrow> False
      | Inr (ins, n) \<Rightarrow> ins = (''JNZ'', Some ''L'', None) \<and> iptr n = 0) \<and>
     next_iptr (hB 0) = 1 \<and>
     loaded (hA 0) \<and> fetch_ok (hA 0) \<and> loaded (hB 0) \<and> fetch_ok (hB 0) \<and>
     tis_next 2 t1 \<noteq> Some (Inl IndexError) \<and>
     tis_next 2 t1 = Some (Inr t2) \<and> iptr (heap t2 0) = 1"
proof -
  let ?t0 = "grid_loaded prog_jnz"
  from jnz_steps obtain t1 t2 hA hB where
    s1: "tis_next 2 (grid_with prog_jnz) = Some (Inr t1)"
    and r1: "node_runs t1 = [(0, Suspended InTail)]"
    and i1: "inject t1 0 = Inr t1"
    and nf: "next_fetches 2 (Suspended InTail) (heap t1) 0 = [hA, hB]"
    and pA: "next_iptr (hA 0) = 2" and oA: "ops (hA 0) = Some (fst prog_jnz)"
    and gA: "(case get_next_op (push_mode RUN (hA 0)) of
                Inl e \<Rightarrow> False
              | Inr (ins, n) \<Rightarrow> ins = (''JNZ'', Some ''L'', None) \<and> iptr n = 0)"
    and pB: "next_iptr (hB 0) = 1"
    and s2: "tis_next 2 t1 = Some (Inr t2)" and i2: "iptr (heap t2 0) = 1"
    by blast
  from s1 have s1': "tis_next 2 (run_start ?t0) = Some (Inr t1)" by (simp add: grid_with_def)
  have r: "reach ?t0 t1" using reach.step [OF reach.start s1'] .
  have z: "\<forall>b. 0 \<le> next_iptr (heap ?t0 b)" by (simp add: grid_loaded_next_iptr)
  have d: "distinct (nodes ?t0)" by (simp add: grid_loaded_def grid_nodes)
  have ms: "\<forall>b. mode_stack (heap ?t0 b) \<noteq> []" by (simp add: grid_loaded_mode_stack)
  have u: "\<not> loaded (heap ?t0 4)" by (simp add: grid_loaded_def loaded_def)
  note T = only_loaded_nodes_step [OF r z]
  have m: "map fst (node_runs t1) = [0]"
    using T by (simp add: grid_loaded_scheduled prog_jnz_def)
  then have "0 \<in> set (map fst (node_runs t1))" by simp
  with T have l: "loaded (heap t1 0) \<and> fetch_ok (heap t1 0)" by blast
  from T u have sr: "same_regs (heap ?t0 4) (heap t1 4)" by blast
  from r1 have e: "(0, Suspended InTail) \<in> set (node_runs t1)" by simp
  from T have F: "\<forall>e \<in> set (node_runs t1). \<forall>k t1' h.
       inject t1 (fst e) = Inr t1' \<and> h \<in> set (next_fetches k (snd e) (heap t1') (fst e)) \<longrightarrow>
       loaded (h (fst e)) \<and> fetch_ok (h (fst e))"
    by blast
  have fA: "loaded (hA 0) \<and> fetch_ok (hA 0)"
    using F [rule_format, of "(0, Suspended InTail)" t1 hA 2] e i1 nf by simp
  have fB: "loaded (hB 0) \<and> fetch_ok (hB 0)"
    using F [rule_format, of "(0, Suspended InTail)" t1 hB 2] e i1 nf by simp
  from T d ms have ni: "tis_next 2 t1 \<noteq> Some (Inl IndexError)" by blast
  from s1' r z d ms m l u sr e i1 nf pA oA gA pB fA fB ni s2 i2 show ?thesis
    by (intro exI [of _ t1] exI [of _ t2] exI [of _ hA] exI [of _ hB]) simp
qed

section \<open>What a step does to the queues\<close>

lemma qle_refl [simp]: "qle n n"
  by (simp add: qle_def)

lemma qle_trans: "qle n n' \<Longrightarrow> qle n' n'' \<Longrightarrow> qle n n''"
  unfolding qle_def by (meson order_trans)

lemma qle_inputs: "inputs n' = inputs n \<Longrightarrow> qle n n'"
  by (simp add: qle_def)

lemma reads_qle: "reads n n' \<Longrightarrow> qle n n'"
  by (simp add: reads_def qle_def)

lemma pop_mode_inputs: "pop_mode n = Inr n' \<Longrightarrow> inputs n' = inputs n"
  by (auto simp: pop_mode_def split: if_splits)

lemma push_mode_inputs [simp]: "inputs (push_mode m n) = inputs n"
  by (simp add: push_mode_def)

lemma shrink_refl [simp]: "shrink a h h"
  by (simp add: shrink_def)

lemma shrink_trans: "shrink a h h' \<Longrightarrow> shrink a h' h'' \<Longrightarrow> shrink a h h''"
  unfolding shrink_def by (auto intro: qle_trans)

lemma shrink_upd: "qle (h a) n \<Longrightarrow> shrink a h (h(a := n))"
  by (simp add: shrink_def)

lemma shrink_same: "inputs n = inputs (h a) \<Longrightarrow> shrink a h (h(a := n))"
  by (simp add: shrink_def qle_def)

lemma shrink_push: "shrink a h (h(a := push_mode m (h a)))"
  by (simp add: shrink_same)

lemma shrink_pop: "pop_mode (h a) = Inr n \<Longrightarrow> shrink a h (h(a := n))"
  by (simp add: shrink_same pop_mode_inputs)

lemma write_output_loop_cases:
  assumes "write_output_loop p od h a = Inr (pos, h')"
  shows "(pos = Some (WriteWait p od) \<and> h' = h \<and> inputs (h p) od \<noteq> []) \<or>
         (pos = Some WriteDone \<and> inputs (h p) od = [] \<and> shrink a h h')"
  using assms
  by (auto simp: write_output_loop_def has_inputs_def split: if_splits sum.splits
      intro: shrink_pop)

lemma hand_over_log:
  "is_log_node (h p) \<Longrightarrow> inputs (hand_over p d v h a b) = inputs (h b)"
  by (simp add: hand_over_def write_input_def Let_def)

lemma hand_over_sent:
  "\<not> is_log_node (h p) \<Longrightarrow> sent p (opposite_directions d) v h (hand_over p d v h a)"
  by (auto simp: hand_over_def write_input_def Let_def sent_def)

lemma hand_over_attached [simp]:
  "attached_nodes (hand_over p d v h a b) = attached_nodes (h b)"
  by (simp add: hand_over_def write_input_def Let_def)

lemma sent_after_push:
  "sent p od v (h(a := push_mode m (h a))) h' \<Longrightarrow> sent p od v h h'"
  by (simp add: sent_def)

lemma sent_nonempty: "sent p od v h h' \<Longrightarrow> inputs (h' p) od \<noteq> []"
  by (simp add: sent_def)

text \<open>The blocking \<^verbatim>\<open>_write_output\<close> from its start.\<close>

lemma write_output_start_cases:
  assumes "write_output_start dopt v h a = Inr (pos, h')"
  shows "(shrink a h h' \<and> (\<forall>u. pos \<noteq> Some (AnyWritePoll u))) \<or>
         (\<exists>d p. attached_nodes (h a) d = Some p \<and>
            pos = Some (WriteWait p (opposite_directions d)) \<and>
            sent p (opposite_directions d) v h h')"
proof (cases dopt)
  case None
  with assms show ?thesis by (simp add: write_output_start_def get_attached_node_def Let_def)
next
  case (Some d)
  let ?h1 = "h(a := push_mode WRITE (h a))"
  have att: "attached_nodes (?h1 a) d = attached_nodes (h a) d" by (simp add: push_mode_def)
  show ?thesis
  proof (cases "attached_nodes (h a) d")
    case None
    with assms Some att have "h' = ?h1" "pos = None"
      by (simp_all add: write_output_start_def get_attached_node_def Let_def)
    then show ?thesis by (simp add: shrink_push)
  next
    case (Some p)
    let ?h3 = "hand_over p d v ?h1 a"
    from assms \<open>dopt = Some d\<close> Some att
    have l: "write_output_loop p (opposite_directions d) ?h3 a = Inr (pos, h')"
      by (simp add: write_output_start_def get_attached_node_def Let_def)
    show ?thesis
    proof (cases "is_log_node (?h1 p)")
      case True
      then have "\<forall>b. inputs (?h3 b) = inputs (?h1 b)" by (simp add: hand_over_log)
      then have "shrink a h ?h3" by (simp add: shrink_def qle_def)
      with write_output_loop_cases [OF l] show ?thesis
        by (auto intro: shrink_trans)
    next
      case False
      then have s: "sent p (opposite_directions d) v h ?h3"
        by (blast intro: sent_after_push hand_over_sent)
      with write_output_loop_cases [OF l] sent_nonempty [OF s] Some show ?thesis
        by auto
    qed
  qed
qed

lemma write_dest_start_port:
  assumes "dest \<in> dest_keywords" and "dest \<noteq> Some ''ANY''" and "dest \<noteq> Some ''ACC''"
    and "dest \<noteq> Some ''NIL''"
  shows "\<exists>dopt. write_dest_start dest v h a = write_output_start dopt v h a"
proof -
  from assms have "dest = Some ''UP'' \<or> dest = Some ''DOWN'' \<or> dest = Some ''LEFT'' \<or>
      dest = Some ''RIGHT'' \<or> dest = Some ''LAST''"
    by (simp add: dest_keywords_def)
  then show ?thesis
  proof (elim disjE)
    assume "dest = Some ''UP''"
    then have "write_dest_start dest v h a = write_output_start (Some UP) v h a"
      by (simp add: write_dest_start_simps)
    then show ?thesis ..
  next
    assume "dest = Some ''DOWN''"
    then have "write_dest_start dest v h a = write_output_start (Some DOWN) v h a"
      by (simp add: write_dest_start_simps)
    then show ?thesis ..
  next
    assume "dest = Some ''LEFT''"
    then have "write_dest_start dest v h a = write_output_start (Some LEFT) v h a"
      by (simp add: write_dest_start_simps)
    then show ?thesis ..
  next
    assume "dest = Some ''RIGHT''"
    then have "write_dest_start dest v h a = write_output_start (Some RIGHT) v h a"
      by (simp add: write_dest_start_simps)
    then show ?thesis ..
  next
    assume "dest = Some ''LAST''"
    then have "write_dest_start dest v h a = write_output_start (last_port_dir (h a)) v h a"
      by (simp add: write_dest_start_simps)
    then show ?thesis ..
  qed
qed

lemma write_dest_start_cases:
  assumes "write_dest_start dest v h a = Inr (pos, h')" and "dest \<noteq> Some ''ANY''"
  shows "(shrink a h h' \<and> (\<forall>u. pos \<noteq> Some (AnyWritePoll u))) \<or>
         (\<exists>d p. attached_nodes (h a) d = Some p \<and>
            pos = Some (WriteWait p (opposite_directions d)) \<and>
            sent p (opposite_directions d) v h h')"
proof (cases "dest \<in> dest_keywords")
  case True
  with assms(2) consider "dest = Some ''ACC''" | "dest = Some ''NIL''"
    | dopt where "write_dest_start dest v h a = write_output_start dopt v h a"
    using write_dest_start_port [of dest v h a] by blast
  then show ?thesis
  proof cases
    case 1
    with assms(1) show ?thesis by (auto simp: write_dest_start_simps shrink_same)
  next
    case 2
    with assms(1) show ?thesis by (auto simp: write_dest_start_simps)
  next
    case 3
    with assms(1) have "write_output_start dopt v h a = Inr (pos, h')" by simp
    then show ?thesis by (rule write_output_start_cases)
  qed
next
  case False
  with assms show ?thesis by (simp add: write_dest_start_other)
qed

lemma write_dest_resume_cases:
  assumes "write_dest_resume wp h a = Inr (pos, h')" and "\<forall>u. wp \<noteq> AnyWritePoll u"
  shows "shrink a h h' \<and> (\<forall>u. pos \<noteq> Some (AnyWritePoll u)) \<and>
         (\<forall>p od. wp = WriteWait p od \<longrightarrow> pos = Some (WriteWait p od) \<or> inputs (h p) od = [])"
  using assms
  by (cases wp) (auto simp: write_dest_resume_def dest!: write_output_loop_cases)

lemma shrink_reading:
  assumes "reading fr src h a = Inr out"
  shows "\<exists>p h'. out = Yield (fr p) h' \<and> shrink a h h'"
  using assms
  by (auto simp: reading_def split: sum.splits
      intro!: shrink_upd reads_qle dest: reads_read_src_start)

lemma jmp_inputs: "jmp l n = Inr n' \<Longrightarrow> inputs n' = inputs n"
  by (auto simp: jmp_def split: option.splits)

lemma shrink_cond_jmp:
  assumes "cond_jmp c l h a = Inr out"
  shows "shrink a h (heap_of out) \<and> (\<forall>fr h'. out = Yield fr h' \<longrightarrow> fr = InTail)"
  using assms
  by (auto simp: cond_jmp_def split: if_splits sum.splits intro!: shrink_same dest: jmp_inputs)

lemma handler_start_quiet:
  assumes "handler_start m x y h a = Inr out" and "y \<noteq> Some ''ANY''"
  shows "shrink a h (heap_of out) \<and>
         (\<forall>fr h'. out = Yield fr h' \<longrightarrow> not_writing fr \<and> frame_no_any fr)"
  using assms
  by (cases m) (auto dest!: shrink_reading shrink_cond_jmp intro!: shrink_same)

lemma get_next_op_member:
  assumes "get_next_op n = Inr (ins, n')"
  shows "\<exists>os. ops n = Some os \<and> ins \<in> set os \<and> inputs n' = inputs n"
  using assms
  by (auto simp: get_next_op_def py_index_def Let_def
      split: option.splits sum.splits if_splits)

lemma dispatch_quiet:
  assumes "dispatch h a = Inr out" and "no_any_dest (h a)"
  shows "shrink a h (heap_of out) \<and>
         (\<forall>fr h'. out = Yield fr h' \<longrightarrow> not_writing fr \<and> frame_no_any fr)"
proof -
  from assms(1) obtain opn x y n m where
    g: "get_next_op (push_mode RUN (h a)) = Inr ((opn, x, y), n)"
    and hs: "handler_start m x y (h(a := n \<lparr> next_iptr := iptr n + 1 \<rparr>)) a = Inr out"
    by (auto simp: dispatch_def Let_def split: sum.splits option.splits prod.splits)
  from get_next_op_member [OF g] obtain os where os: "ops (h a) = Some os"
    "(opn, x, y) \<in> set os" and i: "inputs n = inputs (h a)"
    by (auto simp: push_mode_def)
  from os assms(2) have y: "y \<noteq> Some ''ANY''" by (fastforce simp: no_any_dest_def)
  from i have "shrink a h (h(a := n \<lparr> next_iptr := iptr n + 1 \<rparr>))" by (simp add: shrink_same)
  with handler_start_quiet [OF hs y] show ?thesis by (blast intro: shrink_trans)
qed

lemma frame_no_any_dest: "frame a h h' \<Longrightarrow> no_any_dest (h' b) = no_any_dest (h b)"
  by (cases "b = a") (auto simp: frame_def owns_def same_regs_def no_any_dest_def)

lemma run_loop_quiet:
  assumes "run_loop k h a = Some (Inr (fr, h'))" and "no_any_dest (h a)"
  shows "shrink a h h' \<and> not_writing fr \<and> frame_no_any fr"
  using assms
proof (induction k arbitrary: h)
  case 0
  then show ?case by simp
next
  case (Suc k)
  from Suc.prems obtain out where d: "dispatch h a = Inr out"
    by (auto split: sum.splits)
  note q = dispatch_quiet [OF d Suc.prems(2)]
  note f = frame_dispatch [OF d]
  show ?case
  proof (cases out)
    case (Yield fr1 h1)
    with Suc.prems d q show ?thesis by simp
  next
    case (Finish h1)
    with Suc.prems d obtain n where p: "pop_mode (h1 a) = Inr n"
      and r: "run_loop k (h1(a := n)) a = Some (Inr (fr, h'))"
      by (auto split: sum.splits)
    from f Finish have f1: "frame a h h1" by simp
    have f2: "frame a h (h1(a := n))"
      using f1 frame_pop [of h1 a n] p by (blast intro: frame_trans)
    from frame_no_any_dest [OF f2, of a] Suc.prems(2) have "no_any_dest ((h1(a := n)) a)"
      by simp
    from Suc.IH [OF r this]
    have I: "shrink a (h1(a := n)) h' \<and> not_writing fr \<and> frame_no_any fr" .
    moreover from q Finish have "shrink a h h1" by simp
    moreover have "shrink a h1 (h1(a := n))" using p by (rule shrink_pop)
    ultimately show ?thesis by (blast intro: shrink_trans)
  qed
qed

lemma read_done_same:
  assumes "read_src_resume rp n = Inr (Inr (v, n'))"
  shows "inputs n' = inputs n \<and> attached_nodes n' = attached_nodes n"
  using read_src_resume_done [OF assms] by auto

lemma sent_after_upd:
  "inputs n = inputs (h a) \<Longrightarrow> sent p od v (h(a := n)) h' \<Longrightarrow> sent p od v h h'"
  by (simp add: sent_def)

lemma mov_write_step:
  assumes w: "write_dest_start dest v (h(a := n)) a = Inr (pos, h')"
    and dest: "dest \<noteq> Some ''ANY''"
    and n: "inputs n = inputs (h a)" "attached_nodes n = attached_nodes (h a)"
    and out: "mov_write (Inr (pos, h')) = Inr out"
  shows "(shrink a h (heap_of out) \<and> (\<forall>fr' g. out = Yield fr' g \<longrightarrow> frame_no_any fr')) \<or>
         (\<exists>D p. attached_nodes (h a) D = Some p \<and>
            out = Yield (InMovWrite (WriteWait p (opposite_directions D))) h' \<and>
            sent p (opposite_directions D) v h h')"
proof -
  from n(1) have s0: "shrink a h (h(a := n))" by (simp add: shrink_same)
  from write_dest_start_cases [OF w dest] show ?thesis
  proof
    assume q: "shrink a (h(a := n)) h' \<and> (\<forall>u. pos \<noteq> Some (AnyWritePoll u))"
    with s0 have "shrink a h h'" by (blast intro: shrink_trans)
    moreover have "heap_of out = h'"
      using out by (auto simp: mov_write_def split: option.splits)
    moreover have "\<forall>fr' g. out = Yield fr' g \<longrightarrow> frame_no_any fr'"
    proof (intro allI impI)
      fix fr' g assume "out = Yield fr' g"
      with out obtain wp where "pos = Some wp" "fr' = InMovWrite wp"
        by (auto simp: mov_write_def split: option.splits)
      with q show "frame_no_any fr'" by (cases wp) auto
    qed
    ultimately show ?thesis by simp
  next
    assume "\<exists>d p. attached_nodes ((h(a := n)) a) d = Some p \<and>
        pos = Some (WriteWait p (opposite_directions d)) \<and>
        sent p (opposite_directions d) v (h(a := n)) h'"
    then obtain d p where a: "attached_nodes n d = Some p"
      and p: "pos = Some (WriteWait p (opposite_directions d))"
      and s: "sent p (opposite_directions d) v (h(a := n)) h'" by auto
    from a n(2) have "attached_nodes (h a) d = Some p" by simp
    moreover from p out have "out = Yield (InMovWrite (WriteWait p (opposite_directions d))) h'"
      by (simp add: mov_write_def)
    moreover from sent_after_upd [OF n(1) s] have "sent p (opposite_directions d) v h h'" .
    ultimately show ?thesis by blast
  qed
qed

lemma reading_resume_quiet:
  assumes "read_src_resume rp (h a) = Inr (Inl (rp', n))"
  shows "shrink a h (h(a := n))"
  using assms by (blast intro: shrink_upd reads_qle reads_read_src_resume_yield)

lemma handler_resume_step:
  assumes r: "handler_resume fr h a = Inr out" and ok: "frame_no_any fr"
  shows "(shrink a h (heap_of out) \<and> (\<forall>fr' g. out = Yield fr' g \<longrightarrow> frame_no_any fr') \<and>
          (\<forall>p od. fr = InMovWrite (WriteWait p od) \<longrightarrow>
             out = Yield fr h \<or> inputs (h p) od = [])) \<or>
         (\<exists>dest rp D p v h'. fr = InMovRead dest rp \<and> attached_nodes (h a) D = Some p \<and>
            out = Yield (InMovWrite (WriteWait p (opposite_directions D))) h' \<and>
            sent p (opposite_directions D) v h h')"
proof (cases fr)
  case InTail
  with r show ?thesis by (auto simp: handler_resume_def)
next
  case (InMovRead dest rp)
  with ok have dest: "dest \<noteq> Some ''ANY''" by simp
  from r InMovRead obtain res where rs: "read_src_resume rp (h a) = Inr res"
    by (auto simp: handler_resume_def split: sum.splits)
  show ?thesis
  proof (cases res)
    case (Inl y)
    obtain rp' n where y: "y = (rp', n)" by (cases y)
    with r InMovRead rs Inl have "out = Yield (InMovRead dest rp') (h(a := n))"
      by (simp add: handler_resume_def)
    moreover from rs Inl y have "shrink a h (h(a := n))" by (simp add: reading_resume_quiet)
    ultimately show ?thesis using dest InMovRead by simp
  next
    case (Inr z)
    obtain v n where z: "z = (v, n)" by (cases z)
    with r InMovRead rs Inr
    have m: "mov_write (write_dest_start dest v (h(a := n)) a) = Inr out"
      by (simp add: handler_resume_def)
    then obtain pos h' where w: "write_dest_start dest v (h(a := n)) a = Inr (pos, h')"
      by (auto simp: mov_write_def split: sum.splits)
    from rs Inr z have "read_src_resume rp (h a) = Inr (Inr (v, n))" by simp
    from read_done_same [OF this]
    have n: "inputs n = inputs (h a)" "attached_nodes n = attached_nodes (h a)" by simp_all
    from m w have "mov_write (Inr (pos, h')) = Inr out" by simp
    from mov_write_step [OF w dest n this] InMovRead show ?thesis by auto
  qed
next
  case (InMovWrite wp)
  with ok have nw: "\<forall>u. wp \<noteq> AnyWritePoll u" by auto
  from r InMovWrite have m: "mov_write (write_dest_resume wp h a) = Inr out"
    by (simp add: handler_resume_def)
  then obtain pos h' where w: "write_dest_resume wp h a = Inr (pos, h')"
    by (auto simp: mov_write_def split: sum.splits)
  note c = write_dest_resume_cases [OF w nw]
  from m w have ho: "heap_of out = h'" by (auto simp: mov_write_def split: option.splits)
  have fa: "\<forall>fr' g. out = Yield fr' g \<longrightarrow> frame_no_any fr'"
  proof (intro allI impI)
    fix fr' g assume "out = Yield fr' g"
    with m w obtain wp' where "pos = Some wp'" "fr' = InMovWrite wp'"
      by (auto simp: mov_write_def split: option.splits)
    with c show "frame_no_any fr'" by (cases wp') auto
  qed
  have wr: "\<forall>p od. fr = InMovWrite (WriteWait p od) \<longrightarrow>
      out = Yield fr h \<or> inputs (h p) od = []"
  proof (intro allI impI)
    fix p od assume f: "fr = InMovWrite (WriteWait p od)"
    with InMovWrite have wp: "wp = WriteWait p od" by simp
    show "out = Yield fr h \<or> inputs (h p) od = []"
    proof (cases "inputs (h p) od = []")
      case True
      then show ?thesis ..
    next
      case False
      with w wp have "pos = Some (WriteWait p od)" "h' = h"
        by (auto simp: write_dest_resume_def dest!: write_output_loop_cases)
      with m w f have "out = Yield fr h" by (simp add: mov_write_def)
      then show ?thesis ..
    qed
  qed
  from c ho fa wr show ?thesis by simp
next
  case (InAdd rp)
  with r show ?thesis
    by (auto simp: handler_resume_def split: sum.splits prod.splits
        dest!: reads_read_src_resume_yield reads_read_src_resume_done
        intro!: shrink_upd simp: reads_def qle_def)
next
  case (InSub rp)
  with r show ?thesis
    by (auto simp: handler_resume_def split: sum.splits prod.splits
        dest!: reads_read_src_resume_yield reads_read_src_resume_done
        intro!: shrink_upd simp: reads_def qle_def)
next
  case (InJro rp)
  with r show ?thesis
    by (auto simp: handler_resume_def jro_tail_def Let_def
        split: sum.splits prod.splits option.splits
        dest!: reads_read_src_resume_yield reads_read_src_resume_done
        intro!: shrink_upd simp: reads_def qle_def)
qed

text \<open>One \<^verbatim>\<open>next\<close> of a node that has no MOV to ANY in its program.\<close>

lemma node_next_step:
  assumes n: "node_next k g h a = Some (Inr (fr', h'))" and g: "gen_no_any g"
    and prog: "no_any_dest (h a)"
  shows "frame_no_any fr' \<and> (quiet_step a g h fr' h' \<or> send_step a g h fr' h')"
proof (cases g)
  case NotStarted
  with n have "run_loop k h a = Some (Inr (fr', h'))" by (simp add: node_next_def)
  from run_loop_quiet [OF this prog] NotStarted show ?thesis by (simp add: quiet_step_def)
next
  case (Suspended fr)
  with g have ok: "frame_no_any fr" by simp
  from n Suspended obtain out where r: "handler_resume fr h a = Inr out"
    by (auto simp: node_next_def split: sum.splits)
  note st = handler_resume_step [OF r ok]
  show ?thesis
  proof (cases out)
    case (Yield fr1 h1)
    with n Suspended r have eq: "fr' = fr1" "h' = h1" by (simp_all add: node_next_def)
    from st show ?thesis
    proof
      assume q: "shrink a h (heap_of out) \<and> (\<forall>fr' g. out = Yield fr' g \<longrightarrow> frame_no_any fr') \<and>
          (\<forall>p od. fr = InMovWrite (WriteWait p od) \<longrightarrow> out = Yield fr h \<or> inputs (h p) od = [])"
      with Yield eq have "shrink a h h'" "frame_no_any fr'" by simp_all
      moreover have "\<forall>p od. g = Suspended (InMovWrite (WriteWait p od)) \<longrightarrow>
          fr' = InMovWrite (WriteWait p od) \<or> inputs (h p) od = []"
        using q Yield eq Suspended by auto
      ultimately show ?thesis by (simp add: quiet_step_def)
    next
      assume "\<exists>dest rp D p v h'. fr = InMovRead dest rp \<and> attached_nodes (h a) D = Some p \<and>
          out = Yield (InMovWrite (WriteWait p (opposite_directions D))) h' \<and>
          sent p (opposite_directions D) v h h'"
      then obtain dest rp D p v where "fr = InMovRead dest rp"
        "attached_nodes (h a) D = Some p"
        "fr' = InMovWrite (WriteWait p (opposite_directions D))"
        "sent p (opposite_directions D) v h h'"
        using Yield eq by auto
      with Suspended have "send_step a g h fr' h'" unfolding send_step_def by blast
      moreover from \<open>fr' = InMovWrite (WriteWait p (opposite_directions D))\<close>
      have "frame_no_any fr'" by simp
      ultimately show ?thesis by simp
    qed
  next
    case (Finish h1)
    with n Suspended r obtain m where p: "pop_mode (h1 a) = Inr m"
      and l: "run_loop k (h1(a := m)) a = Some (Inr (fr', h'))"
      by (auto simp: node_next_def split: sum.splits)
    from st Finish have q: "shrink a h h1"
      "\<forall>p od. fr = InMovWrite (WriteWait p od) \<longrightarrow> inputs (h p) od = []"
      by auto
    have f1: "frame a h h1" using frame_handler_resume [OF r] Finish by simp
    have f2: "frame a h (h1(a := m))"
      using f1 frame_pop [of h1 a m] p by (blast intro: frame_trans)
    from frame_no_any_dest [OF f2, of a] prog have "no_any_dest ((h1(a := m)) a)" by simp
    from run_loop_quiet [OF l this]
    have I: "shrink a (h1(a := m)) h' \<and> not_writing fr' \<and> frame_no_any fr'" .
    have "shrink a h1 (h1(a := m))" using p by (rule shrink_pop)
    with q(1) I have "shrink a h h'" by (blast intro: shrink_trans)
    with q(2) Suspended I show ?thesis by (simp add: quiet_step_def)
  qed
qed

section \<open>The one-slot invariant\<close>

lemma opposite_twice [simp]: "opposite_directions (opposite_directions d) = d"
  by (cases d) simp_all

lemma frame_attached: "frame a h h' \<Longrightarrow> attached_nodes (h' b) = attached_nodes (h b)"
  by (cases "b = a") (auto simp: frame_def owns_def same_regs_def)

lemma host_apart_cong:
  assumes "host_apart t" and "buffered_input t' = buffered_input t"
    and "\<And>b. attached_nodes (heap t' b) = attached_nodes (heap t b)"
  shows "host_apart t'"
  using assms(1) unfolding host_apart_def assms(2) assms(3) .

lemma one_slot_cong:
  assumes "one_slot t" and "node_runs t' = node_runs t"
    and "\<And>b. inputs (heap t' b) = inputs (heap t b)"
    and "\<And>b. attached_nodes (heap t' b) = attached_nodes (heap t b)"
  shows "one_slot t'"
  using assms(1) unfolding one_slot_def assms(2) assms(3) assms(4) .

lemma one_slot_start:
  assumes "one_slot_machine t0"
  shows "one_slot_inv (run_start t0)"
proof -
  from assms have d: "distinct (nodes t0)" and e: "\<forall>b d. inputs (heap t0 b) d = []"
    by (simp_all add: one_slot_machine_def)
  have "distinct (map fst (node_runs (run_start t0)))"
    using d by (simp add: run_start_def comp_def)
  moreover have "one_slot (run_start t0)"
    using e by (simp add: one_slot_def run_start_def)
  moreover have "\<forall>e \<in> set (node_runs (run_start t0)). gen_no_any (snd e)"
    by (auto simp: run_start_def)
  moreover have "host_apart (run_start t0)"
    using assms by (auto simp: one_slot_machine_def run_start_def intro: host_apart_cong)
  moreover have "wired_once (heap (run_start t0))" "\<forall>b. no_any_dest (heap (run_start t0) b)"
    using assms by (simp_all add: one_slot_machine_def run_start_def)
  ultimately show ?thesis
    by (simp add: one_slot_inv_def)
qed

text \<open>The host's injection keeps the invariant.\<close>

lemma inject_heap:
  assumes "inject t a = Inr t1"
  shows "(heap t1 = heap t \<and> buffered_input t1 = buffered_input t) \<or>
         (\<exists>q pre d v vs post. buffered_input t a = Some q \<and> q = pre @ (d, v # vs) # post \<and>
            buffered_input t1 = (buffered_input t)(a \<mapsto> pre @ (d, vs) # post) \<and>
            inputs (heap t a) d = [] \<and> heap t1 = (heap t)(a := write_input d v (heap t a)))"
proof (cases "buffered_input t a")
  case None
  with assms show ?thesis by (simp add: inject_def)
next
  case (Some q)
  show ?thesis
  proof (cases "mode_of (heap t a) = Inr READ")
    case False
    with assms Some show ?thesis
      by (auto simp: inject_def split: sum.splits if_splits)
  next
    case True
    obtain q' n' b where f: "inject_first q (heap t a) = (q', n', b)"
      by (cases "inject_first q (heap t a)")
    with assms Some True have t1: "heap t1 = (heap t)(a := n')"
      "buffered_input t1 = (buffered_input t)(a \<mapsto> q')"
      by (auto simp: inject_def)
    from inject_first_spec [OF f] show ?thesis
    proof
      assume "\<not> b \<and> q' = q \<and> n' = heap t a"
      with t1 Some have "heap t1 = heap t \<and> buffered_input t1 = buffered_input t"
        by (simp add: map_upd_triv)
      then show ?thesis ..
    next
      assume "b \<and> (\<exists>pre d v vs post. q = pre @ (d, v # vs) # post \<and>
          q' = pre @ (d, vs) # post \<and> inputs (heap t a) d = [] \<and>
          n' = write_input d v (heap t a))"
      then obtain pre d v vs post where "q = pre @ (d, v # vs) # post"
        "q' = pre @ (d, vs) # post" "inputs (heap t a) d = []"
        "n' = write_input d v (heap t a)" by blast
      with t1 Some have "\<exists>q pre d v vs post. buffered_input t a = Some q \<and>
            q = pre @ (d, v # vs) # post \<and>
            buffered_input t1 = (buffered_input t)(a \<mapsto> pre @ (d, vs) # post) \<and>
            inputs (heap t a) d = [] \<and> heap t1 = (heap t)(a := write_input d v (heap t a))"
        by (intro exI [of _ q] exI [of _ pre] exI [of _ d] exI [of _ v] exI [of _ vs]
            exI [of _ post]) simp
      then show ?thesis ..
    qed
  qed
qed

lemma write_input_attached [simp]: "attached_nodes (write_input d v n) = attached_nodes n"
  by (simp add: write_input_def)

lemma write_input_queue:
  "inputs (write_input d v n) e =
     (if e = d \<and> \<not> is_log_node n then inputs n e @ [v] else inputs n e)"
  by (simp add: write_input_def)

lemma inject_keeps:
  assumes i: "inject t a = Inr t1" and inv: "one_slot_inv t"
  shows "one_slot_inv t1"
proof -
  note f = inject_fields [OF i]
  from inject_heap [OF i] show ?thesis
  proof
    assume same: "heap t1 = heap t \<and> buffered_input t1 = buffered_input t"
    from inv have "host_apart t1" "one_slot t1"
      using same f(1) by (auto simp: one_slot_inv_def intro: host_apart_cong one_slot_cong)
    with inv f(1) same show ?thesis
      by (simp add: one_slot_inv_def)
  next
    assume "\<exists>q pre d v vs post. buffered_input t a = Some q \<and> q = pre @ (d, v # vs) # post \<and>
        buffered_input t1 = (buffered_input t)(a \<mapsto> pre @ (d, vs) # post) \<and>
        inputs (heap t a) d = [] \<and> heap t1 = (heap t)(a := write_input d v (heap t a))"
    then obtain q pre d v vs post where q: "buffered_input t a = Some q"
      "q = pre @ (d, v # vs) # post"
      and b1: "buffered_input t1 = (buffered_input t)(a \<mapsto> pre @ (d, vs) # post)"
      and e: "inputs (heap t a) d = []"
      and h1: "heap t1 = (heap t)(a := write_input d v (heap t a))" by blast
    have att: "\<And>b. attached_nodes (heap t1 b) = attached_nodes (heap t b)"
      using h1 by simp
    from inv have ha: "host_apart t" and os: "one_slot t" by (simp_all add: one_slot_inv_def)
    have nowriter: "\<And>w. attached_nodes (heap t w) (opposite_directions d) \<noteq> Some a"
      using ha q unfolding host_apart_def by (metis in_set_conv_decomp list.distinct(1))
    have "wired_once (heap t1)"
      using inv att by (simp add: one_slot_inv_def wired_once_def)
    moreover have "host_apart t1"
      unfolding host_apart_def
    proof (intro allI impI)
      fix b q' e ws w
      assume p: "buffered_input t1 b = Some q' \<and> (e, ws) \<in> set q' \<and> ws \<noteq> []"
      have "\<exists>q0 ws0. buffered_input t b = Some q0 \<and> (e, ws0) \<in> set q0 \<and> ws0 \<noteq> []"
      proof (cases "b = a")
        case False
        with p b1 show ?thesis by auto
      next
        case True
        with p b1 have "(e, ws) \<in> set (pre @ (d, vs) # post)" by auto
        then have "(e, ws) \<in> set q \<or> (e = d \<and> (d, v # vs) \<in> set q)"
          using q(2) by auto
        with p q(1) True show ?thesis by auto
      qed
      with ha show "attached_nodes (heap t1 w) (opposite_directions e) \<noteq> Some b"
        unfolding host_apart_def att by blast
    qed
    moreover have "\<forall>b. no_any_dest (heap t1 b)"
      using inv f(4) by (auto simp: one_slot_inv_def no_any_dest_def same_regs_def)
    moreover have "distinct (map fst (node_runs t1))"
      "\<forall>e \<in> set (node_runs t1). gen_no_any (snd e)"
      using inv f(1) by (simp_all add: one_slot_inv_def)
    moreover have "one_slot t1"
      unfolding one_slot_def
    proof (intro allI)
      fix r x
      show "length (inputs (heap t1 r) x) \<le> 1 \<and>
        (inputs (heap t1 r) x \<noteq> [] \<longrightarrow>
           (\<forall>w. attached_nodes (heap t1 w) (opposite_directions x) = Some r \<longrightarrow>
              (w, Suspended (InMovWrite (WriteWait r x))) \<in> set (node_runs t1)))"
      proof (cases "r = a \<and> x = d")
        case True
        with h1 e have "length (inputs (heap t1 r) x) \<le> 1" by (simp add: write_input_queue)
        with True nowriter att show ?thesis by simp
      next
        case False
        with h1 have "inputs (heap t1 r) x = inputs (heap t r) x"
          by (auto simp: write_input_queue)
        with os att f(1) show ?thesis by (simp add: one_slot_def)
      qed
    qed
    ultimately show ?thesis by (simp add: one_slot_inv_def)
  qed
qed

text \<open>A step of one node keeps the invariant.\<close>

lemma quiet_keeps:
  assumes os: "one_slot t1" and di: "distinct (map fst (node_runs t1))"
    and c: "c < length (node_runs t1)" and ag: "node_runs t1 ! c = (a, g)"
    and q: "quiet_step a g (heap t1) fr (heap t')"
    and att: "\<And>b. attached_nodes (heap t' b) = attached_nodes (heap t1 b)"
    and r: "node_runs t' = (node_runs t1)[c := (a, Suspended fr)]"
  shows "one_slot t'"
  unfolding one_slot_def
proof (intro allI conjI impI)
  fix r d
  from q have le: "length (inputs (heap t' r) d) \<le> length (inputs (heap t1 r) d)"
    by (cases "r = a") (simp_all add: quiet_step_def shrink_def qle_def)
  from os have "length (inputs (heap t1 r) d) \<le> 1" by (simp add: one_slot_def)
  with le show "length (inputs (heap t' r) d) \<le> 1" by simp
  fix w
  assume ne: "inputs (heap t' r) d \<noteq> []"
    and w: "attached_nodes (heap t' w) (opposite_directions d) = Some r"
  from ne le have ne1: "inputs (heap t1 r) d \<noteq> []" by auto
  from w have "attached_nodes (heap t1 w) (opposite_directions d) = Some r" by (simp add: att)
  with os ne1 have m: "(w, Suspended (InMovWrite (WriteWait r d))) \<in> set (node_runs t1)"
    by (simp add: one_slot_def)
  show "(w, Suspended (InMovWrite (WriteWait r d))) \<in> set (node_runs t')"
  proof (cases "w = a")
    case True
    with m di c ag have "Suspended (InMovWrite (WriteWait r d)) = g"
      using runs_unique [of "node_runs t1" c a g "Suspended (InMovWrite (WriteWait r d))"]
      by simp
    with q ne1 have "fr = InMovWrite (WriteWait r d)" by (auto simp: quiet_step_def)
    with True show ?thesis
      unfolding r using runs_update [OF di c ag, of a "Suspended fr" "Suspended fr"] by simp
  next
    case False
    with m show ?thesis
      unfolding r
      using runs_update [OF di c ag, of w "Suspended (InMovWrite (WriteWait r d))" "Suspended fr"]
      by simp
  qed
qed

lemma send_keeps:
  assumes os: "one_slot t1" and di: "distinct (map fst (node_runs t1))"
    and wo: "wired_once (heap t1)"
    and c: "c < length (node_runs t1)" and ag: "node_runs t1 ! c = (a, g)"
    and s: "send_step a g (heap t1) fr (heap t')"
    and att: "\<And>b. attached_nodes (heap t' b) = attached_nodes (heap t1 b)"
    and r: "node_runs t' = (node_runs t1)[c := (a, Suspended fr)]"
  shows "one_slot t'"
proof -
  from s obtain dest rp D p v where
    g: "g = Suspended (InMovRead dest rp)" and ap: "attached_nodes (heap t1 a) D = Some p"
    and fr: "fr = InMovWrite (WriteWait p (opposite_directions D))"
    and se: "sent p (opposite_directions D) v (heap t1) (heap t')"
    unfolding send_step_def by blast
  let ?od = "opposite_directions D"
  have not_a: "(a, Suspended (InMovWrite (WriteWait r d))) \<notin> set (node_runs t1)" for r d
  proof
    assume "(a, Suspended (InMovWrite (WriteWait r d))) \<in> set (node_runs t1)"
    with di c ag have "Suspended (InMovWrite (WriteWait r d)) = g"
      using runs_unique [of "node_runs t1" c a g "Suspended (InMovWrite (WriteWait r d))"]
      by simp
    with g show False by simp
  qed
  have empty: "inputs (heap t1 p) ?od = []"
  proof (rule ccontr)
    assume "inputs (heap t1 p) ?od \<noteq> []"
    with os ap have "(a, Suspended (InMovWrite (WriteWait p ?od))) \<in> set (node_runs t1)"
      by (simp add: one_slot_def)
    with not_a show False by simp
  qed
  show ?thesis
    unfolding one_slot_def
  proof (intro allI conjI impI)
    fix r d
    from os have le: "length (inputs (heap t1 r) d) \<le> 1" by (simp add: one_slot_def)
    from se have i: "inputs (heap t' r) d =
        (if r = p \<and> d = ?od then inputs (heap t1 r) d @ [v] else inputs (heap t1 r) d)"
      by (simp add: sent_def)
    from i le empty show "length (inputs (heap t' r) d) \<le> 1" by auto
    fix w
    assume ne: "inputs (heap t' r) d \<noteq> []"
      and w: "attached_nodes (heap t' w) (opposite_directions d) = Some r"
    from w have w1: "attached_nodes (heap t1 w) (opposite_directions d) = Some r"
      by (simp add: att)
    show "(w, Suspended (InMovWrite (WriteWait r d))) \<in> set (node_runs t')"
    proof (cases "r = p \<and> d = ?od")
      case True
      with w1 ap wo have "w = a" unfolding wired_once_def by simp blast
      with True fr show ?thesis
        unfolding r using runs_update [OF di c ag, of a "Suspended fr" "Suspended fr"] by simp
    next
      case False
      with i ne have "inputs (heap t1 r) d \<noteq> []" by simp
      with os w1 have m: "(w, Suspended (InMovWrite (WriteWait r d))) \<in> set (node_runs t1)"
        by (simp add: one_slot_def)
      with not_a have "w \<noteq> a" by auto
      with m show ?thesis
        unfolding r
        using runs_update [OF di c ag, of w "Suspended (InMovWrite (WriteWait r d))" "Suspended fr"]
        by simp
    qed
  qed
qed

lemma node_step_keeps:
  assumes inv: "one_slot_inv t1"
    and c: "c < length (node_runs t1)" and ag: "node_runs t1 ! c = (a, g)"
    and n: "node_next k g (heap t1) a = Some (Inr (fr, heap t'))"
    and b: "buffered_input t' = buffered_input t1"
    and r: "node_runs t' = (node_runs t1)[c := (a, Suspended fr)]"
  shows "one_slot_inv t'"
proof -
  from inv have wo: "wired_once (heap t1)" and ha: "host_apart t1"
    and na: "\<forall>b. no_any_dest (heap t1 b)"
    and ga: "\<forall>e \<in> set (node_runs t1). gen_no_any (snd e)"
    and di: "distinct (map fst (node_runs t1))" and os: "one_slot t1"
    by (simp_all add: one_slot_inv_def)
  from c ag ga have gg: "gen_no_any g" by (metis nth_mem snd_conv)
  from na have "no_any_dest (heap t1 a)" by simp
  from node_next_step [OF n gg this]
  have fna: "frame_no_any fr"
    and qs: "quiet_step a g (heap t1) fr (heap t') \<or> send_step a g (heap t1) fr (heap t')"
    by simp_all
  from n have f: "frame a (heap t1) (heap t')" by (rule frame_node_next)
  have att: "attached_nodes (heap t' b) = attached_nodes (heap t1 b)" for b
    using f by (rule frame_attached)
  have wo': "wired_once (heap t')" using wo unfolding wired_once_def att .
  have ha': "host_apart t'" using ha b att by (rule host_apart_cong)
  have na': "\<forall>b. no_any_dest (heap t' b)" using na frame_no_any_dest [OF f] by simp
  have ga': "\<forall>e \<in> set (node_runs t'). gen_no_any (snd e)"
  proof
    fix e assume "e \<in> set (node_runs t')"
    then have "e \<in> insert (a, Suspended fr) (set (node_runs t1))"
      unfolding r using set_update_subset_insert by fastforce
    with ga fna show "gen_no_any (snd e)" by auto
  qed
  have "map fst (node_runs t') = map fst (node_runs t1)"
    unfolding r using c ag by (simp add: map_update) (metis fst_conv list_update_id map_update)
  with di have di': "distinct (map fst (node_runs t'))" by simp
  from qs have os': "one_slot t'"
  proof
    assume "quiet_step a g (heap t1) fr (heap t')"
    with os di c ag show ?thesis using att r by (rule quiet_keeps)
  next
    assume "send_step a g (heap t1) fr (heap t')"
    with os di wo c ag show ?thesis using att r by (rule send_keeps)
  qed
  from wo' ha' na' ga' di' os' show ?thesis by (simp add: one_slot_inv_def)
qed

lemma tis_next_keeps:
  assumes "tis_next k t = Some (Inr t')" and "one_slot_inv t"
  shows "one_slot_inv t'"
proof -
  let ?c = "next_index t"
  let ?a = "fst (node_runs t ! ?c)"
  let ?g = "snd (node_runs t ! ?c)"
  from tis_next_visit [OF assms(1)] obtain t1 fr where
    i: "inject t ?a = Inr t1"
    and n: "node_next k ?g (heap t1) ?a = Some (Inr (fr, heap t'))"
    and b: "buffered_input t' = buffered_input t1"
    and r: "node_runs t' = (node_runs t)[?c := (?a, Suspended fr)]"
    and c: "?c < length (node_runs t)"
    by blast
  from i assms(2) have inv1: "one_slot_inv t1" by (rule inject_keeps)
  from i have r1: "node_runs t1 = node_runs t" by (simp add: inject_fields)
  show ?thesis
    using inv1 _ _ n b
  proof (rule node_step_keeps)
    show "?c < length (node_runs t1)" using c r1 by simp
    show "node_runs t1 ! ?c = (?a, ?g)" using r1 by simp
    show "node_runs t' = (node_runs t1)[?c := (?a, Suspended fr)]" using r r1 by simp
  qed
qed

lemma reach_one_slot:
  assumes "one_slot_machine t0" and "reach t0 t"
  shows "one_slot_inv t"
  using assms(2)
proof induction
  case start
  from assms(1) show ?case by (rule one_slot_start)
next
  case (step t k t')
  from step.hyps(2) step.IH show ?case by (rule tis_next_keeps)
qed

subsection \<open>One slot per queue under blocking writes\<close>

lemma wait_goes_on:
  assumes "inputs (h r) d \<noteq> []"
  shows "node_next k (Suspended (InMovWrite (WriteWait r d))) h w =
           Some (Inr (InMovWrite (WriteWait r d), h))"
  using assms
  by (simp add: node_next_def handler_resume_def mov_write_def write_dest_resume_def
      write_output_loop_def has_inputs_def)

text \<open>
  Where the blocking write alone fills the queues, they are one-slot mailboxes. Take a
  machine in which each queue has at most one node wired to write to it, no program
  has a MOV to ANY, the host buffers input only for queues that no node is wired to
  write to, and all queues are empty when \<^verbatim>\<open>TIS.run\<close> starts. Then in every state that
  \<^verbatim>\<open>next\<close> calls on \<^verbatim>\<open>TIS.run\<close> reach, every queue of every node holds at most one
  value; and while a queue holds a value, a node wired to write to it is suspended in
  the wait loop of its blocking \<^verbatim>\<open>_write_output\<close> for that queue, where a further
  \<^verbatim>\<open>next\<close> of the node leaves it suspended at the same place and changes nothing in
  the store.
\<close>

lemma blocking_writes_one_slot:
  assumes "one_slot_machine t0" and "reach t0 t"
  shows "(\<forall>r d. length (inputs (heap t r) d) \<le> 1) \<and>
         (\<forall>r d w. inputs (heap t r) d \<noteq> [] \<and>
                  attached_nodes (heap t w) (opposite_directions d) = Some r \<longrightarrow>
            (w, Suspended (InMovWrite (WriteWait r d))) \<in> set (node_runs t) \<and>
            (\<forall>k. node_next k (Suspended (InMovWrite (WriteWait r d))) (heap t) w =
                   Some (Inr (InMovWrite (WriteWait r d), heap t))))"
proof -
  from assms have "one_slot_inv t" by (rule reach_one_slot)
  then have os: "one_slot t" by (simp add: one_slot_inv_def)
  show ?thesis
  proof (intro conjI allI impI)
    fix r d
    from os show "length (inputs (heap t r) d) \<le> 1" by (simp add: one_slot_def)
  next
    fix r d w
    assume "inputs (heap t r) d \<noteq> [] \<and>
            attached_nodes (heap t w) (opposite_directions d) = Some r"
    with os show "(w, Suspended (InMovWrite (WriteWait r d))) \<in> set (node_runs t)"
      by (simp add: one_slot_def)
  next
    fix r d w k
    assume "inputs (heap t r) d \<noteq> [] \<and>
            attached_nodes (heap t w) (opposite_directions d) = Some r"
    then show "node_next k (Suspended (InMovWrite (WriteWait r d))) (heap t) w =
                 Some (Inr (InMovWrite (WriteWait r d), heap t))"
      by (simp add: wait_goes_on)
  qed
qed

text \<open>The grid of \<^verbatim>\<open>TIS.__init__\<close> wires at most one node to each queue.\<close>

lemma grid_wiring:
  "attached_nodes (heap TIS_init w) D = Some r \<Longrightarrow>
   w = (case D of UP \<Rightarrow> r + 4 | DOWN \<Rightarrow> r - 4 | LEFT \<Rightarrow> r + 1 | RIGHT \<Rightarrow> r - 1)"
  unfolding TIS_init_def cells
  by (cases D)
    (simp_all add: wire_cell_def attach_node_def MAX_NODES_X_def MAX_NODES_Y_def Node_init_def
      Let_def split: if_splits)

lemma grid_wired_once: "wired_once (heap TIS_init)"
  unfolding wired_once_def
proof (intro allI impI)
  fix w w' D r
  assume "attached_nodes (heap TIS_init w) D = Some r \<and>
          attached_nodes (heap TIS_init w') D = Some r"
  then show "w = w'" using grid_wiring [of w D r] grid_wiring [of w' D r] by simp
qed

lemma grid_loaded_attached:
  "attached_nodes (heap (grid_loaded c) b) = attached_nodes (heap TIS_init b)"
  by (simp add: grid_loaded_def load_bytecode_def split: prod.splits)

lemma grid_send_machine: "one_slot_machine (grid_loaded prog_send)"
proof -
  have "distinct (nodes (grid_loaded prog_send))" by (simp add: grid_loaded_def grid_nodes)
  moreover have "wired_once (heap (grid_loaded prog_send))"
    using grid_wired_once unfolding wired_once_def grid_loaded_attached .
  moreover have "host_apart (grid_loaded prog_send)"
    by (simp add: host_apart_def grid_loaded_def)
  moreover have "\<forall>b. no_any_dest (heap (grid_loaded prog_send) b)"
    by (simp add: no_any_dest_def grid_loaded_def load_bytecode_def prog_send_def)
  moreover have "\<forall>b d. inputs (heap (grid_loaded prog_send) b) d = []"
    by (simp add: grid_loaded_def load_bytecode_def split: prod.splits)
  ultimately show ?thesis by (simp add: one_slot_machine_def)
qed

lemma send_first_steps:
  "\<exists>t1 t2 t3.
     tis_next 1 (grid_with prog_send) = Some (Inr t1) \<and>
     tis_next 1 t1 = Some (Inr t2) \<and> tis_next 1 t2 = Some (Inr t3) \<and>
     inputs (heap t1 4) UP = [] \<and>
     inputs (heap t2 4) UP = [1] \<and> attached_nodes (heap t2 0) DOWN = Some 4 \<and>
     node_runs t2 = [(0, Suspended (InMovWrite (WriteWait 4 UP)))] \<and>
     inputs (heap t3 4) UP = [1] \<and>
     node_runs t3 = [(0, Suspended (InMovWrite (WriteWait 4 UP)))]"
  by (simp add: prog_send_def grid_defs tis_defs run_defs)

lemma blocking_writes_one_slot_grid:
  "\<exists>t1 t2 t3.
     one_slot_machine (grid_loaded prog_send) \<and>
     tis_next 1 (run_start (grid_loaded prog_send)) = Some (Inr t1) \<and>
     tis_next 1 t1 = Some (Inr t2) \<and> tis_next 1 t2 = Some (Inr t3) \<and>
     reach (grid_loaded prog_send) t2 \<and> reach (grid_loaded prog_send) t3 \<and>
     inputs (heap t1 4) UP = [] \<and>
     inputs (heap t2 4) UP = [1] \<and> attached_nodes (heap t2 0) DOWN = Some 4 \<and>
     inputs (heap t2 4) UP \<noteq> [] \<and> length (inputs (heap t2 4) UP) \<le> 1 \<and>
     (0, Suspended (InMovWrite (WriteWait 4 UP))) \<in> set (node_runs t2) \<and>
     node_next 1 (Suspended (InMovWrite (WriteWait 4 UP))) (heap t2) 0 =
       Some (Inr (InMovWrite (WriteWait 4 UP), heap t2)) \<and>
     inputs (heap t3 4) UP = [1] \<and> length (inputs (heap t3 4) UP) \<le> 1"
proof -
  from send_first_steps obtain t1 t2 t3 where
    s1: "tis_next 1 (grid_with prog_send) = Some (Inr t1)"
    and s2: "tis_next 1 t1 = Some (Inr t2)" and s3: "tis_next 1 t2 = Some (Inr t3)"
    and q1: "inputs (heap t1 4) UP = []"
    and q2: "inputs (heap t2 4) UP = [1]" and a2: "attached_nodes (heap t2 0) DOWN = Some 4"
    and q3: "inputs (heap t3 4) UP = [1]"
    by blast
  let ?t0 = "grid_loaded prog_send"
  from s1 have s1': "tis_next 1 (run_start ?t0) = Some (Inr t1)" by (simp add: grid_with_def)
  have r1: "reach ?t0 t1" using reach.step [OF reach.start s1'] .
  have r2: "reach ?t0 t2" using reach.step [OF r1 s2] .
  have r3: "reach ?t0 t3" using reach.step [OF r2 s3] .
  note P2 = blocking_writes_one_slot [OF grid_send_machine r2]
  note P3 = blocking_writes_one_slot [OF grid_send_machine r3]
  from P2 have l2: "length (inputs (heap t2 4) UP) \<le> 1" by blast
  from P3 have l3: "length (inputs (heap t3 4) UP) \<le> 1" by blast
  from q2 have ne: "inputs (heap t2 4) UP \<noteq> []" by simp
  from a2 have a2': "attached_nodes (heap t2 0) (opposite_directions UP) = Some 4" by simp
  from P2 have
    "inputs (heap t2 4) UP \<noteq> [] \<and> attached_nodes (heap t2 0) (opposite_directions UP) = Some 4 \<longrightarrow>
       (0, Suspended (InMovWrite (WriteWait 4 UP))) \<in> set (node_runs t2) \<and>
       (\<forall>k. node_next k (Suspended (InMovWrite (WriteWait 4 UP))) (heap t2) 0 =
              Some (Inr (InMovWrite (WriteWait 4 UP), heap t2)))"
    by blast
  with ne a2' have w: "(0, Suspended (InMovWrite (WriteWait 4 UP))) \<in> set (node_runs t2)"
    and n: "node_next 1 (Suspended (InMovWrite (WriteWait 4 UP))) (heap t2) 0 =
              Some (Inr (InMovWrite (WriteWait 4 UP), heap t2))"
    by blast+
  from grid_send_machine s1' s2 s3 r2 r3 q1 q2 a2 ne l2 w n q3 l3 show ?thesis
    by (intro exI [of _ t1] exI [of _ t2] exI [of _ t3]) simp
qed

end
